theory Spec2Isabelle
  imports Complex_Main "HOL-Library.Multiset"
begin

section \<open>Data model\<close>

text \<open>
  The C program works on \<^verbatim>\<open>double\<close> and \<^verbatim>\<open>int32_t\<close>. In this development a
  \<^verbatim>\<open>double\<close> is a real number (exact arithmetic: no rounding, no infinities, no NaN), and
  an \<^verbatim>\<open>int32_t\<close> is an integer between \<open>INT32_MIN\<close> and \<open>INT32_MAX\<close>. Where the C
  code would leave that range (a signed overflow, a conversion of a \<^verbatim>\<open>double\<close> that
  does not fit) or read or write outside an allocated block, its behaviour is undefined; the model
  then stops with the failure \<open>Undefined\<close> instead of inventing a result.

  \<open>IndexError\<close> is the \<^verbatim>\<open>exit(EXIT_FAILURE)\<close> of \<^verbatim>\<open>get_lut_index\<close>,
  \<open>AllocationError\<close> the early return after a failed \<^verbatim>\<open>malloc\<close>.
\<close>

datatype error = IndexError | AllocationError | Undefined

abbreviation INT32_MAX :: int where
  "INT32_MAX \<equiv> 2147483647"

abbreviation INT32_MIN :: int where
  "INT32_MIN \<equiv> - 2147483648"

text \<open>
  Memory is a list of blocks, a pointer is the number of a block, and a block is the list of
  the doubles stored in it. \<^verbatim>\<open>struct lut_info\<close> keeps its two fields.
\<close>

type_synonym ptr = nat
type_synonym heap = "real list list"

record lut_info =
  len :: int
  lut :: ptr

text \<open>
  A \<^verbatim>\<open>struct lut_info\<close> describes a table when its pointer is a block of the heap and
  \<open>len\<close> is the number of doubles in that block.
\<close>

definition lut_wf :: "heap \<Rightarrow> lut_info \<Rightarrow> bool" where
  "lut_wf h l = (lut l < length h \<and> len l = int (length (h ! lut l)) \<and> len l \<le> INT32_MAX)"

section \<open>Memory\<close>

text \<open>
  Reading or writing a double outside its block is undefined behaviour in C. Both
  operations check the block and the offset, so that a run of the model that returns a
  result has stayed inside the allocated blocks.
\<close>

definition load_double :: "heap \<Rightarrow> ptr \<Rightarrow> int \<Rightarrow> error + real" where
  "load_double h p i =
     (if p < length h \<and> 0 \<le> i \<and> i < int (length (h ! p)) then Inr (h ! p ! nat i)
      else Inl Undefined)"

definition store_double :: "heap \<Rightarrow> ptr \<Rightarrow> int \<Rightarrow> real \<Rightarrow> error + heap" where
  "store_double h p i v =
     (if p < length h \<and> 0 \<le> i \<and> i < int (length (h ! p))
      then Inr (h[p := (h ! p)[nat i := v]])
      else Inl Undefined)"

text \<open>
  \<^verbatim>\<open>malloc(n * sizeof(double))\<close> either fails (\<open>None\<close>) or returns a new block of \<open>n\<close>
  doubles whose contents are indeterminate. The third argument is what the allocator does:
  \<open>None\<close> when it fails, \<open>Some junk\<close> when it succeeds and position \<open>k\<close> of the new
  block holds \<open>junk k\<close>. The new block is a block of its own, after all existing ones.
\<close>

definition malloc_doubles :: "heap \<Rightarrow> int \<Rightarrow> (nat \<Rightarrow> real) option \<Rightarrow> (ptr \<times> heap) option" where
  "malloc_doubles h n fresh =
     (case fresh of
        None \<Rightarrow> None
      | Some junk \<Rightarrow> Some (length h, h @ [map junk [0..<nat n]]))"

definition free_block :: "heap \<Rightarrow> ptr \<Rightarrow> heap" where
  "free_block h p = h[p := []]"

section \<open>summation.c\<close>

definition get_lut_index :: "heap \<Rightarrow> lut_info \<Rightarrow> int \<Rightarrow> error + real" where
  "get_lut_index h l index =
     (if index < 0 \<or> index \<ge> len l then Inl IndexError
      else load_double h (lut l) index)"

text \<open>
  The conversion \<^verbatim>\<open>(int32_t)x\<close> drops the fractional part (rounds towards zero); it is
  defined in C only when the result fits.
\<close>

definition int32_of_double :: "real \<Rightarrow> error + int" where
  "int32_of_double x =
     (if - 2147483649 < x \<and> x < 2147483648
      then Inr (if 0 \<le> x then \<lfloor>x\<rfloor> else \<lceil>x\<rceil>)
      else Inl Undefined)"

definition calc_linear_interpolation :: "heap \<Rightarrow> lut_info \<Rightarrow> real \<Rightarrow> error + real" where
  "calc_linear_interpolation h l x =
     (if of_int \<lfloor>x\<rfloor> = x then
        (case int32_of_double x of
           Inl e \<Rightarrow> Inl e
         | Inr i \<Rightarrow> get_lut_index h l i)
      else
        (case int32_of_double x of
           Inl e \<Rightarrow> Inl e
         | Inr x0_index \<Rightarrow>
             if x0_index = INT32_MAX then Inl Undefined
             else
               (let x1_index = x0_index + 1;
                    x0 = of_int x0_index
                in case get_lut_index h l x0_index of
                     Inl e \<Rightarrow> Inl e
                   | Inr y0 \<Rightarrow>
                       (case get_lut_index h l x1_index of
                          Inl e \<Rightarrow> Inl e
                        | Inr y1 \<Rightarrow> Inr (y0 + (x - x0) * (y1 - y0))))))"

text \<open>
  A callback \<^verbatim>\<open>summation_cb\<close> takes the opaque context pointer and the sample point. It may
  end the process (as \<open>calc_linear_interpolation\<close> does through \<open>get_lut_index\<close>), so it
  returns a failure or a value.
\<close>

type_synonym 'c summation_cb = "'c \<Rightarrow> real \<Rightarrow> error + real"

type_synonym 'c summation = "real \<Rightarrow> real \<Rightarrow> int \<Rightarrow> 'c \<Rightarrow> 'c summation_cb \<Rightarrow> error + real"

text \<open>
  \<^verbatim>\<open>for (int32_t i = start; i < n; i += 1) body\<close>, with the loop's variables as the state
  \<open>s\<close>. A failure in the body ends the run. Since \<open>i < n\<close> and \<open>n\<close> is an
  \<^verbatim>\<open>int32_t\<close>, the increment cannot overflow.
\<close>

function for_loop :: "int \<Rightarrow> int \<Rightarrow> (int \<Rightarrow> 's \<Rightarrow> error + 's) \<Rightarrow> 's \<Rightarrow> error + 's" where
  "for_loop i n body s =
     (if i < n then
        (case body i s of
           Inl e \<Rightarrow> Inl e
         | Inr s' \<Rightarrow> for_loop (i + 1) n body s')
      else Inr s)"
  by pat_completeness auto
termination
  by (relation "measure (\<lambda>(i, n, body, s). nat (n - i))") auto

text \<open>
  \<^verbatim>\<open>for (int32_t i = start; i <= n; i += 1) body\<close>. Here the increment after the pass
  with \<open>i = INT32_MAX\<close> overflows: the condition \<open>i <= n\<close> cannot become false for
  \<open>n = INT32_MAX\<close>.
\<close>

function for_loop_le :: "int \<Rightarrow> int \<Rightarrow> (int \<Rightarrow> 's \<Rightarrow> error + 's) \<Rightarrow> 's \<Rightarrow> error + 's" where
  "for_loop_le i n body s =
     (if i \<le> n then
        (case body i s of
           Inl e \<Rightarrow> Inl e
         | Inr s' \<Rightarrow> if i = INT32_MAX then Inl Undefined else for_loop_le (i + 1) n body s')
      else Inr s)"
  by pat_completeness auto
termination
  by (relation "measure (\<lambda>(i, n, body, s). nat (n + 1 - i))") auto

declare for_loop.simps [simp del] for_loop_le.simps [simp del]

text \<open>
  The five rules. The quotient \<open>(upper - lower) / iterations\<close> is taken in the reals; for
  \<open>iterations = 0\<close> the C expression is an infinity or a NaN, which no real number stands
  for, so every statement below is about \<open>iterations \<ge> 1\<close> (what \<open>parse_step_arg\<close>
  lets through).
\<close>

definition left_riemann :: "real \<Rightarrow> real \<Rightarrow> int \<Rightarrow> 'c \<Rightarrow> 'c summation_cb \<Rightarrow> error + real" where
  "left_riemann lower upper iterations ctx cb =
     (let step = (upper - lower) / of_int iterations
      in case for_loop 0 iterations
                (\<lambda>iter acc.
                   let x = lower + of_int iter * step
                   in case cb ctx x of Inl e \<Rightarrow> Inl e | Inr r \<Rightarrow> Inr (acc + r))
                0 of
           Inl e \<Rightarrow> Inl e
         | Inr acc \<Rightarrow> Inr (step * acc))"

definition mid_riemann :: "real \<Rightarrow> real \<Rightarrow> int \<Rightarrow> 'c \<Rightarrow> 'c summation_cb \<Rightarrow> error + real" where
  "mid_riemann lower upper iterations ctx cb =
     (let step = (upper - lower) / of_int iterations;
          half_step = step / 2
      in case for_loop 0 iterations
                (\<lambda>iter acc.
                   let x = (lower + of_int iter * step) + half_step
                   in case cb ctx x of Inl e \<Rightarrow> Inl e | Inr r \<Rightarrow> Inr (acc + r))
                0 of
           Inl e \<Rightarrow> Inl e
         | Inr acc \<Rightarrow> Inr (step * acc))"

definition right_riemann :: "real \<Rightarrow> real \<Rightarrow> int \<Rightarrow> 'c \<Rightarrow> 'c summation_cb \<Rightarrow> error + real" where
  "right_riemann lower upper iterations ctx cb =
     (let step = (upper - lower) / of_int iterations
      in case for_loop 0 iterations
                (\<lambda>iter acc.
                   let x = lower + of_int (iter + 1) * step
                   in case cb ctx x of Inl e \<Rightarrow> Inl e | Inr r \<Rightarrow> Inr (acc + r))
                0 of
           Inl e \<Rightarrow> Inl e
         | Inr acc \<Rightarrow> Inr (step * acc))"

text \<open>
  In \<open>trapezoidal\<close> the two calls of the first line are made left to right (C leaves the
  order open; it matters only for which of two failures is reported).
\<close>

definition trapezoidal :: "real \<Rightarrow> real \<Rightarrow> int \<Rightarrow> 'c \<Rightarrow> 'c summation_cb \<Rightarrow> error + real" where
  "trapezoidal lower upper iterations ctx cb =
     (let step = (upper - lower) / of_int iterations
      in case cb ctx lower of
           Inl e \<Rightarrow> Inl e
         | Inr f_lower \<Rightarrow>
             (case cb ctx upper of
                Inl e \<Rightarrow> Inl e
              | Inr f_upper \<Rightarrow>
                  (case for_loop 1 iterations
                          (\<lambda>iter acc.
                             let x = lower + of_int iter * step
                             in case cb ctx x of Inl e \<Rightarrow> Inl e | Inr r \<Rightarrow> Inr (acc + r))
                          ((f_lower + f_upper) / 2) of
                     Inl e \<Rightarrow> Inl e
                   | Inr acc \<Rightarrow> Inr (step * acc))))"

text \<open>
  In \<open>simpsons\<close> the counter is never negative, so C's \<^verbatim>\<open>iter % 2\<close> is \<open>iter mod 2\<close>.
\<close>

definition simpsons :: "real \<Rightarrow> real \<Rightarrow> int \<Rightarrow> 'c \<Rightarrow> 'c summation_cb \<Rightarrow> error + real" where
  "simpsons lower upper iterations ctx cb =
     (let step = (upper - lower) / of_int iterations
      in case for_loop_le 0 iterations
                (\<lambda>iter acc.
                   let x = lower + of_int iter * step
                   in case cb ctx x of
                        Inl e \<Rightarrow> Inl e
                      | Inr res \<Rightarrow>
                          if iter = 0 \<or> iter = iterations then Inr (acc + res)
                          else if iter mod 2 = 1 then Inr (acc + 4 * res)
                          else Inr (acc + 2 * res))
                0 of
           Inl e \<Rightarrow> Inl e
         | Inr acc \<Rightarrow> Inr (step * acc / 3))"

text \<open>The weight Simpson's loop gives the sample of pass \<open>j\<close> out of \<open>0 .. n\<close>.\<close>

definition simpsons_weight :: "int \<Rightarrow> int \<Rightarrow> real" where
  "simpsons_weight n j = (if j = 0 \<or> j = n then 1 else if j mod 2 = 1 then 4 else 2)"




section \<open>args.h\<close>

abbreviation (input) LEFT_RIEMANN :: int where "LEFT_RIEMANN \<equiv> 0"
abbreviation (input) MID_RIEMANN :: int where "MID_RIEMANN \<equiv> 1"
abbreviation (input) RIGHT_RIEMANN :: int where "RIGHT_RIEMANN \<equiv> 2"
abbreviation (input) TRAPEZOIDAL :: int where "TRAPEZOIDAL \<equiv> 3"
abbreviation (input) SIMPSONS :: int where "SIMPSONS \<equiv> 4"

record sim_args =
  threads :: int
  algo :: int
  step :: int
  iterations :: int

text \<open>
  What \<open>app_args_init\<close> lets through: \<open>parse_threads_arg\<close>, \<open>parse_step_arg\<close> and
  \<open>parse_iterations_arg\<close> accept \<open>1 .. INT32_MAX\<close>, \<open>parse_algo_arg\<close> one of the five
  rules.
\<close>

definition valid_args :: "sim_args \<Rightarrow> bool" where
  "valid_args args =
     (1 \<le> threads args \<and> threads args \<le> INT32_MAX
      \<and> 0 \<le> algo args \<and> algo args \<le> 4
      \<and> 1 \<le> step args \<and> step args \<le> INT32_MAX
      \<and> 1 \<le> iterations args \<and> iterations args \<le> INT32_MAX)"

section \<open>The two pipelines (run_sim and run_sim_openmp)\<close>

text \<open>
  In the sources the bodies of \<open>main\<close>, \<open>run_sim\<close> and \<open>run_sim_openmp\<close> follow the
  declarations of \<^verbatim>\<open>summation.h\<close>.
\<close>

text \<open>The \<^verbatim>\<open>switch (args->algo)\<close> that picks the rule; left Riemann is the default.\<close>

definition select_summation :: "int \<Rightarrow> 'c summation" where
  "select_summation a =
     (if a = MID_RIEMANN then mid_riemann
      else if a = RIGHT_RIEMANN then right_riemann
      else if a = TRAPEZOIDAL then trapezoidal
      else if a = SIMPSONS then simpsons
      else left_riemann)"

text \<open>
  The body of one benchmark iteration of \<open>run_sim\<close>: the velocity loop, which keeps the
  running sum \<open>vel_final\<close> and stores it at \<open>vel_lut.lut[sec]\<close>, then the position loop.
  It returns \<open>vel_final\<close>, \<open>pos_final\<close> and the memory it leaves. The callback reads the
  memory as it is when the rule calls it.
\<close>

definition run_sim_pass ::
  "lut_info summation \<Rightarrow> sim_args \<Rightarrow> lut_info \<Rightarrow> lut_info \<Rightarrow> heap \<Rightarrow> error + (real \<times> real \<times> heap)" where
  "run_sim_pass sum_cb args l vel_lut h =
     (case for_loop 1 (len l)
             (\<lambda>sec (vel_final, hv).
                case sum_cb (of_int (sec - 1)) (of_int sec) (step args) l
                       (calc_linear_interpolation hv) of
                  Inl e \<Rightarrow> Inl e
                | Inr d \<Rightarrow>
                    (case store_double hv (lut vel_lut) sec (vel_final + d) of
                       Inl e \<Rightarrow> Inl e
                     | Inr hv' \<Rightarrow> Inr (vel_final + d, hv')))
             (0, h) of
        Inl e \<Rightarrow> Inl e
      | Inr (vel_final, h1) \<Rightarrow>
          (case for_loop 1 (len vel_lut)
                  (\<lambda>sec pos_final.
                     case sum_cb (of_int (sec - 1)) (of_int sec) (step args) vel_lut
                            (calc_linear_interpolation h1) of
                       Inl e \<Rightarrow> Inl e
                     | Inr d \<Rightarrow> Inr (pos_final + d))
                  0 of
             Inl e \<Rightarrow> Inl e
           | Inr pos_final \<Rightarrow> Inr (vel_final, pos_final, h1)))"

text \<open>
  \<^verbatim>\<open>#pragma omp parallel for\<close>: the iterations are handed to the threads of the team and
  run concurrently. In both parallel loops of \<open>run_sim_openmp\<close> an iteration reads only
  memory that no iteration of the loop writes, and writes only its own slot
  \<open>vel_lut.lut[sec]\<close> or its thread's private accumulator, so a concurrent run has the
  effect of running the iterations one after the other in some order. That order is a
  parameter of the model (\<open>for_order\<close>): \<open>omp_for\<close> runs the iterations in the order given.

  With \<^verbatim>\<open>reduction(+:pos_final)\<close> every thread adds the results of its iterations to a
  private copy that starts at \<open>0\<close>, and the copies are added to the original value at the
  end. \<open>reduction_chunks\<close> lists, thread by thread, the iterations a thread runs; the
  private sums are combined in the order of that list.
\<close>

record omp_schedule =
  for_order :: "int list"
  reduction_chunks :: "int list list"

fun omp_for :: "int list \<Rightarrow> (int \<Rightarrow> 's \<Rightarrow> error + 's) \<Rightarrow> 's \<Rightarrow> error + 's" where
  "omp_for [] body s = Inr s"
| "omp_for (i # rest) body s =
     (case body i s of
        Inl e \<Rightarrow> Inl e
      | Inr s' \<Rightarrow> omp_for rest body s')"

fun omp_partial_sums :: "int list list \<Rightarrow> (int \<Rightarrow> real \<Rightarrow> error + real) \<Rightarrow> error + real list" where
  "omp_partial_sums [] body = Inr []"
| "omp_partial_sums (chunk # rest) body =
     (case omp_for chunk body 0 of
        Inl e \<Rightarrow> Inl e
      | Inr p \<Rightarrow>
          (case omp_partial_sums rest body of
             Inl e \<Rightarrow> Inl e
           | Inr ps \<Rightarrow> Inr (p # ps)))"

definition omp_for_reduction ::
  "int list list \<Rightarrow> (int \<Rightarrow> real \<Rightarrow> error + real) \<Rightarrow> real \<Rightarrow> error + real" where
  "omp_for_reduction chunks body init =
     (case omp_partial_sums chunks body of
        Inl e \<Rightarrow> Inl e
      | Inr ps \<Rightarrow> Inr (foldl (+) init ps))"

text \<open>
  A schedule fits a loop over \<open>sec = 1 .. len - 1\<close> run by at most \<open>threads\<close> threads when
  every iteration is run exactly once and the team has between one and \<open>threads\<close> members.
\<close>

definition schedule_ok :: "sim_args \<Rightarrow> lut_info \<Rightarrow> omp_schedule \<Rightarrow> bool" where
  "schedule_ok args l s =
     (mset (for_order s) = mset [1..len l - 1]
      \<and> mset (concat (reduction_chunks s)) = mset [1..len l - 1]
      \<and> 1 \<le> length (reduction_chunks s)
      \<and> int (length (reduction_chunks s)) \<le> threads args)"

text \<open>
  The body of one benchmark iteration of \<open>run_sim_openmp\<close>: the parallel loop that stores
  every interval's velocity difference, the sequential running sum over the whole velocity
  table, and the parallel loop with the reduction.
\<close>

definition run_sim_openmp_pass ::
  "omp_schedule \<Rightarrow> lut_info summation \<Rightarrow> sim_args \<Rightarrow> lut_info \<Rightarrow> lut_info \<Rightarrow> heap
     \<Rightarrow> error + (real \<times> real \<times> heap)" where
  "run_sim_openmp_pass sched sum_cb args l vel_lut h =
     (case omp_for (for_order sched)
             (\<lambda>sec hv.
                case sum_cb (of_int (sec - 1)) (of_int sec) (step args) l
                       (calc_linear_interpolation hv) of
                  Inl e \<Rightarrow> Inl e
                | Inr d \<Rightarrow> store_double hv (lut vel_lut) sec d)
             h of
        Inl e \<Rightarrow> Inl e
      | Inr h1 \<Rightarrow>
          (case for_loop 0 (len vel_lut)
                  (\<lambda>index (vel_final, hv).
                     case load_double hv (lut vel_lut) index of
                       Inl e \<Rightarrow> Inl e
                     | Inr v \<Rightarrow>
                         (case store_double hv (lut vel_lut) index (vel_final + v) of
                            Inl e \<Rightarrow> Inl e
                          | Inr hv' \<Rightarrow> Inr (vel_final + v, hv')))
                  (0, h1) of
             Inl e \<Rightarrow> Inl e
           | Inr (vel_final, h2) \<Rightarrow>
               (case omp_for_reduction (reduction_chunks sched)
                       (\<lambda>sec pos_final.
                          case sum_cb (of_int (sec - 1)) (of_int sec) (step args) vel_lut
                                 (calc_linear_interpolation h2) of
                            Inl e \<Rightarrow> Inl e
                          | Inr d \<Rightarrow> Inr (pos_final + d))
                       0 of
                  Inl e \<Rightarrow> Inl e
                | Inr pos_final \<Rightarrow> Inr (vel_final, pos_final, h2))))"

text \<open>
  What \<open>run_sim\<close> and \<open>run_sim_openmp\<close> do around that body, word for word the same in
  both: allocate the velocity table (returning early when \<^verbatim>\<open>malloc\<close> fails), store
  \<open>0.0\<close> at its index \<open>0\<close>, run the body \<open>iterations\<close> times, print the two results in
  the last iteration, free the table. The result is what was printed (\<open>None\<close> when the loop
  did not run) and the memory left. The timing calls around the body are left out; the clock
  is taken to answer (the code skips or ends the iteration when it does not).
\<close>

definition benchmark ::
  "(int \<Rightarrow> lut_info \<Rightarrow> heap \<Rightarrow> error + (real \<times> real \<times> heap)) \<Rightarrow> sim_args \<Rightarrow> lut_info \<Rightarrow> heap
     \<Rightarrow> (nat \<Rightarrow> real) option \<Rightarrow> error + ((real \<times> real) option \<times> heap)" where
  "benchmark pass args l h fresh =
     (case malloc_doubles h (len l) fresh of
        None \<Rightarrow> Inl AllocationError
      | Some (p, h0) \<Rightarrow>
          (let vel_lut = \<lparr>len = len l, lut = p\<rparr>
           in case store_double h0 (lut vel_lut) 0 0 of
                Inl e \<Rightarrow> Inl e
              | Inr h1 \<Rightarrow>
                  (case for_loop 0 (iterations args)
                          (\<lambda>c (hc, printed).
                             case pass c vel_lut hc of
                               Inl e \<Rightarrow> Inl e
                             | Inr (vel_final, pos_final, hc') \<Rightarrow>
                                 Inr (hc', if c = iterations args - 1
                                           then Some (vel_final, pos_final) else printed))
                          (h1, None) of
                     Inl e \<Rightarrow> Inl e
                   | Inr (h2, printed) \<Rightarrow> Inr (printed, free_block h2 (lut vel_lut)))))"

definition run_sim ::
  "sim_args \<Rightarrow> lut_info \<Rightarrow> heap \<Rightarrow> (nat \<Rightarrow> real) option \<Rightarrow> error + ((real \<times> real) option \<times> heap)" where
  "run_sim args l h fresh =
     benchmark (\<lambda>c vel_lut hc. run_sim_pass (select_summation (algo args)) args l vel_lut hc)
       args l h fresh"

text \<open>\<open>scheds c\<close> is the schedule of the two parallel loops in benchmark iteration \<open>c\<close>.\<close>

definition run_sim_openmp ::
  "(int \<Rightarrow> omp_schedule) \<Rightarrow> sim_args \<Rightarrow> lut_info \<Rightarrow> heap \<Rightarrow> (nat \<Rightarrow> real) option
     \<Rightarrow> error + ((real \<times> real) option \<times> heap)" where
  "run_sim_openmp scheds args l h fresh =
     benchmark
       (\<lambda>c vel_lut hc.
          run_sim_openmp_pass (scheds c) (select_summation (algo args)) args l vel_lut hc)
       args l h fresh"

section \<open>The tables a run computes\<close>

text \<open>
  For the statements about whole runs: with \<open>\<delta> sec\<close> the value the rule returns for the
  interval \<open>[sec - 1, sec]\<close> of the acceleration table, \<open>velocity_at \<delta> k\<close> is the running
  sum \<open>\<delta> 1 + ... + \<delta> k\<close>, \<open>velocity_table \<delta> N\<close> the velocity table of length \<open>N\<close> that
  both pipelines leave, and \<open>diff_table \<delta> N\<close> the table of differences that the first
  parallel loop of \<open>run_sim_openmp\<close> leaves (index \<open>0\<close> holds \<open>0.0\<close>).
\<close>

definition velocity_at :: "(int \<Rightarrow> real) \<Rightarrow> nat \<Rightarrow> real" where
  "velocity_at \<delta> k = (\<Sum>j<k. \<delta> (1 + int j))"

definition velocity_table :: "(int \<Rightarrow> real) \<Rightarrow> nat \<Rightarrow> real list" where
  "velocity_table \<delta> N = map (velocity_at \<delta>) [0..<N]"

definition diff_table :: "(int \<Rightarrow> real) \<Rightarrow> nat \<Rightarrow> real list" where
  "diff_table \<delta> N = map (\<lambda>k. if k = 0 then 0 else \<delta> (int k)) [0..<N]"

section \<open>Table access\<close>

text \<open>
  C8. On a table of length \<open>len \<ge> 1\<close>, \<open>get_lut_index\<close> fails with \<open>IndexError\<close> at
  index \<open>-1\<close> and at index \<open>len\<close>, and returns the stored sample at index \<open>0\<close> and at index
  \<open>len - 1\<close>.
\<close>

theorem get_lut_index_bounds:
  assumes "lut_wf h l" and "1 \<le> len l"
  shows "get_lut_index h l (- 1) = Inl IndexError
       \<and> get_lut_index h l (len l) = Inl IndexError
       \<and> get_lut_index h l 0 = Inr (hd (h ! lut l))
       \<and> get_lut_index h l (len l - 1) = Inr (last (h ! lut l))"
proof -
  from assms have blk: "lut l < length h" and n: "len l = int (length (h ! lut l))"
    by (simp_all add: lut_wf_def)
  from assms n have ne: "h ! lut l \<noteq> []"
    by auto
  have "nat (len l - 1) = length (h ! lut l) - 1"
    using n by simp
  then have idx: "h ! lut l ! nat (len l - 1) = last (h ! lut l)"
    using ne by (simp add: last_conv_nth)
  have "get_lut_index h l (len l - 1) = Inr (last (h ! lut l))"
    using assms(2) blk n idx ne by (simp add: get_lut_index_def load_double_def)
  moreover have "get_lut_index h l 0 = Inr (hd (h ! lut l))"
    using assms(2) blk n ne by (simp add: get_lut_index_def load_double_def hd_conv_nth)
  ultimately show ?thesis
    by (simp add: get_lut_index_def)
qed

theorem get_lut_index_bounds_witness:
  "lut_wf [[5, 7, 9]] \<lparr>len = 3, lut = 0\<rparr> \<and> 1 \<le> len \<lparr>len = 3, lut = 0\<rparr>
   \<and> get_lut_index [[5, 7, 9]] \<lparr>len = 3, lut = 0\<rparr> (- 1) = Inl IndexError
   \<and> get_lut_index [[5, 7, 9]] \<lparr>len = 3, lut = 0\<rparr> 3 = Inl IndexError
   \<and> get_lut_index [[5, 7, 9]] \<lparr>len = 3, lut = 0\<rparr> 0 = Inr 5
   \<and> get_lut_index [[5, 7, 9]] \<lparr>len = 3, lut = 0\<rparr> 2 = Inr 9"
  using get_lut_index_bounds [of "[[5, 7, 9]]" "\<lparr>len = 3, lut = 0\<rparr>"]
  by (simp add: lut_wf_def)


section \<open>Interpolation\<close>

lemma int32_of_double_int:
  "INT32_MIN \<le> i \<Longrightarrow> i \<le> INT32_MAX \<Longrightarrow> int32_of_double (of_int i) = Inr i"
  by (simp add: int32_of_double_def)

lemma int32_of_double_nonneg:
  "0 \<le> x \<Longrightarrow> x < 2147483648 \<Longrightarrow> int32_of_double x = Inr \<lfloor>x\<rfloor>"
  by (simp add: int32_of_double_def)

lemma int32_of_double_neg:
  "x < 0 \<Longrightarrow> - 2147483649 < x \<Longrightarrow> int32_of_double x = Inr \<lceil>x\<rceil>"
  by (simp add: int32_of_double_def)

lemma calc_linear_interpolation_int:
  "INT32_MIN \<le> i \<Longrightarrow> i \<le> INT32_MAX \<Longrightarrow>
   calc_linear_interpolation h l (of_int i) = get_lut_index h l i"
  by (simp add: calc_linear_interpolation_def int32_of_double_int)

lemma floor_between:
  fixes x :: real
  assumes "of_int i < x" "x < of_int i + 1"
  shows "\<lfloor>x\<rfloor> = i" "of_int \<lfloor>x\<rfloor> \<noteq> x"
proof -
  show fl: "\<lfloor>x\<rfloor> = i" using assms by linarith
  show "of_int \<lfloor>x\<rfloor> \<noteq> x" using assms fl by simp
qed

lemma calc_linear_interpolation_between:
  assumes "0 \<le> i" "i < INT32_MAX" "of_int i < x" "x < of_int i + 1"
  shows "calc_linear_interpolation h l x =
           (case get_lut_index h l i of
              Inl e \<Rightarrow> Inl e
            | Inr y0 \<Rightarrow>
                (case get_lut_index h l (i + 1) of
                   Inl e \<Rightarrow> Inl e
                 | Inr y1 \<Rightarrow> Inr (y0 + (x - of_int i) * (y1 - y0))))"
proof -
  have fl: "\<lfloor>x\<rfloor> = i" and ni: "of_int \<lfloor>x\<rfloor> \<noteq> x"
    using floor_between [OF assms(3,4)] by simp_all
  have "0 \<le> x" "x < 2147483648"
    using assms by linarith+
  then have "int32_of_double x = Inr i"
    using fl by (simp add: int32_of_double_nonneg)
  then show ?thesis
    using ni assms(2) by (simp add: calc_linear_interpolation_def Let_def)
qed

lemma get_lut_index_in_range:
  "lut_wf h l \<Longrightarrow> 0 \<le> i \<Longrightarrow> i < len l \<Longrightarrow> get_lut_index h l i = Inr (h ! lut l ! nat i)"
  by (simp add: get_lut_index_def load_double_def lut_wf_def)





text \<open>
  C6, at a sample point between \<open>-1\<close> and \<open>0\<close>. The conversion to \<^verbatim>\<open>int32_t\<close> rounds
  towards zero, so \<open>x0_index\<close> is \<open>0\<close> and not \<open>floor(x) = -1\<close>: on the table \<open>[1, 3]\<close>
  the call at \<open>x = -0.5\<close> returns the extrapolated value \<open>1 + (-0.5) * (3 - 1) = 0\<close>,
  although \<open>floor(x)\<close> is not an index of the table.
\<close>

theorem interpolation_below_zero:
  "calc_linear_interpolation [[1, 3]] \<lparr>len = 2, lut = 0\<rparr> (- 1 / 2) = Inr 0
   \<and> \<lfloor>- 1 / 2 :: real\<rfloor> = - 1
   \<and> get_lut_index [[1, 3]] \<lparr>len = 2, lut = 0\<rparr> \<lfloor>- 1 / 2 :: real\<rfloor> = Inl IndexError"
  by code_simp

section \<open>The loops and the rules\<close>

lemma for_loop_add:
  fixes t :: "int \<Rightarrow> real"
  assumes "\<And>j a. i \<le> j \<Longrightarrow> j < n \<Longrightarrow> body j a = Inr (a + t j)"
  shows "for_loop i n body a = Inr (a + (\<Sum>k<nat (n - i). t (i + int k)))"
  using assms
proof (induction "nat (n - i)" arbitrary: i a)
  case 0
  then show ?case by (simp add: for_loop.simps)
next
  case (Suc m)
  then have lt: "i < n" and m: "m = nat (n - (i + 1))" by linarith+
  have step: "body i a = Inr (a + t i)"
    using Suc.prems lt by simp
  have "for_loop (i + 1) n body (a + t i) = Inr (a + t i + (\<Sum>k<nat (n - (i + 1)). t (i + 1 + int k)))"
    using Suc.hyps(1) [OF m] Suc.prems by simp
  moreover have "(\<Sum>k<nat (n - i). t (i + int k)) = t i + (\<Sum>k<nat (n - (i + 1)). t (i + 1 + int k))"
  proof -
    have "nat (n - i) = Suc (nat (n - (i + 1)))"
      using lt by simp
    then show ?thesis
      by (simp add: sum.lessThan_Suc_shift add.assoc del: sum.lessThan_Suc)
  qed
  ultimately show ?case
    using lt step
    by (subst for_loop.simps) (simp add: add.assoc)
qed

lemma for_loop_le_add:
  fixes t :: "int \<Rightarrow> real"
  assumes "\<And>j a. i \<le> j \<Longrightarrow> j \<le> n \<Longrightarrow> body j a = Inr (a + t j)" and "n < INT32_MAX"
  shows "for_loop_le i n body a = Inr (a + (\<Sum>k<nat (n + 1 - i). t (i + int k)))"
  using assms
proof (induction "nat (n + 1 - i)" arbitrary: i a)
  case 0
  then show ?case by (simp add: for_loop_le.simps)
next
  case (Suc m)
  then have le: "i \<le> n" and m: "m = nat (n + 1 - (i + 1))" by linarith+
  have step: "body i a = Inr (a + t i)"
    using Suc.prems le by simp
  have "for_loop_le (i + 1) n body (a + t i) = Inr (a + t i + (\<Sum>k<nat (n + 1 - (i + 1)). t (i + 1 + int k)))"
    using Suc.hyps(1) [OF m] Suc.prems by simp
  moreover have "(\<Sum>k<nat (n + 1 - i). t (i + int k)) = t i + (\<Sum>k<nat (n + 1 - (i + 1)). t (i + 1 + int k))"
  proof -
    have "nat (n + 1 - i) = Suc (nat (n + 1 - (i + 1)))"
      using le by simp
    then show ?thesis
      by (simp add: sum.lessThan_Suc_shift add.assoc del: sum.lessThan_Suc)
  qed
  moreover have "i \<noteq> INT32_MAX" using le Suc.prems(2) by simp
  ultimately show ?case
    using le step
    by (subst for_loop_le.simps) (simp add: add.assoc)
qed

lemma for_loop_le_overflow:
  assumes "\<And>j a. i \<le> j \<Longrightarrow> j \<le> INT32_MAX \<Longrightarrow> \<exists>a'. body j a = Inr a'"
    and "i \<le> INT32_MAX" and "INT32_MAX \<le> n"
  shows "for_loop_le i n body a = Inl Undefined"
  using assms
proof (induction "nat (INT32_MAX - i)" arbitrary: i a)
  case 0
  then have i: "i = INT32_MAX" by simp
  obtain a' where "body i a = Inr a'"
    using "0.prems"(1) [of i a] i by auto
  then show ?case
    using i "0.prems"(3) by (subst for_loop_le.simps) simp
next
  case (Suc m)
  then have lt: "i < INT32_MAX" and m: "m = nat (INT32_MAX - (i + 1))" by linarith+
  obtain a' where a': "body i a = Inr a'"
    using Suc.prems(1) [of i a] lt by auto
  have "for_loop_le (i + 1) n body a' = Inl Undefined"
    using Suc.hyps(1) [OF m] Suc.prems lt by simp
  then show ?case
    using lt a' Suc.prems(3) by (subst for_loop_le.simps) simp
qed


lemma left_riemann_value:
  assumes "\<And>j. 0 \<le> j \<Longrightarrow> j < n \<Longrightarrow>
             cb ctx (lower + of_int j * ((upper - lower) / of_int n)) = Inr (g j)"
  shows "left_riemann lower upper n ctx cb
           = Inr ((upper - lower) / of_int n * (\<Sum>k<nat n. g (int k)))"
proof -
  have "for_loop 0 n
          (\<lambda>iter acc.
             let x = lower + of_int iter * ((upper - lower) / of_int n)
             in case cb ctx x of Inl e \<Rightarrow> Inl e | Inr r \<Rightarrow> Inr (acc + r)) 0
        = Inr (0 + (\<Sum>k<nat (n - 0). g (0 + int k)))"
    by (rule for_loop_add) (simp only: Let_def assms sum.case)
  then show ?thesis
    by (simp add: left_riemann_def)
qed

lemma mid_riemann_value:
  assumes "\<And>j. 0 \<le> j \<Longrightarrow> j < n \<Longrightarrow>
             cb ctx (lower + of_int j * ((upper - lower) / of_int n)
                     + (upper - lower) / of_int n / 2) = Inr (g j)"
  shows "mid_riemann lower upper n ctx cb
           = Inr ((upper - lower) / of_int n * (\<Sum>k<nat n. g (int k)))"
proof -
  have "for_loop 0 n
          (\<lambda>iter acc.
             let x = (lower + of_int iter * ((upper - lower) / of_int n))
                     + (upper - lower) / of_int n / 2
             in case cb ctx x of Inl e \<Rightarrow> Inl e | Inr r \<Rightarrow> Inr (acc + r)) 0
        = Inr (0 + (\<Sum>k<nat (n - 0). g (0 + int k)))"
    by (rule for_loop_add) (simp only: Let_def assms sum.case)
  then show ?thesis
    by (simp add: mid_riemann_def)
qed

lemma right_riemann_value:
  assumes "\<And>j. 0 \<le> j \<Longrightarrow> j < n \<Longrightarrow>
             cb ctx (lower + of_int (j + 1) * ((upper - lower) / of_int n)) = Inr (g j)"
  shows "right_riemann lower upper n ctx cb
           = Inr ((upper - lower) / of_int n * (\<Sum>k<nat n. g (int k)))"
proof -
  have "for_loop 0 n
          (\<lambda>iter acc.
             let x = lower + of_int (iter + 1) * ((upper - lower) / of_int n)
             in case cb ctx x of Inl e \<Rightarrow> Inl e | Inr r \<Rightarrow> Inr (acc + r)) 0
        = Inr (0 + (\<Sum>k<nat (n - 0). g (0 + int k)))"
    by (rule for_loop_add) (simp only: Let_def assms sum.case)
  then show ?thesis
    by (simp add: right_riemann_def)
qed

lemma trapezoidal_value:
  assumes "cb ctx lower = Inr f_lower" and "cb ctx upper = Inr f_upper"
    and "\<And>j. 1 \<le> j \<Longrightarrow> j < n \<Longrightarrow>
             cb ctx (lower + of_int j * ((upper - lower) / of_int n)) = Inr (g j)"
  shows "trapezoidal lower upper n ctx cb
           = Inr ((upper - lower) / of_int n
                  * ((f_lower + f_upper) / 2 + (\<Sum>k<nat (n - 1). g (1 + int k))))"
proof -
  have "for_loop 1 n
          (\<lambda>iter acc.
             let x = lower + of_int iter * ((upper - lower) / of_int n)
             in case cb ctx x of Inl e \<Rightarrow> Inl e | Inr r \<Rightarrow> Inr (acc + r))
          ((f_lower + f_upper) / 2)
        = Inr ((f_lower + f_upper) / 2 + (\<Sum>k<nat (n - 1). g (1 + int k)))"
    by (rule for_loop_add) (simp only: Let_def assms sum.case)
  then show ?thesis
    by (simp add: trapezoidal_def assms(1,2))
qed

lemma simpsons_value:
  assumes "n < INT32_MAX"
    and "\<And>j. 0 \<le> j \<Longrightarrow> j \<le> n \<Longrightarrow>
             cb ctx (lower + of_int j * ((upper - lower) / of_int n)) = Inr (g j)"
  shows "simpsons lower upper n ctx cb
           = Inr ((upper - lower) / of_int n
                  * (\<Sum>k<nat (n + 1). simpsons_weight n (int k) * g (int k)) / 3)"
proof -
  have "for_loop_le 0 n
          (\<lambda>iter acc.
             let x = lower + of_int iter * ((upper - lower) / of_int n)
             in case cb ctx x of
                  Inl e \<Rightarrow> Inl e
                | Inr res \<Rightarrow>
                    if iter = 0 \<or> iter = n then Inr (acc + res)
                    else if iter mod 2 = 1 then Inr (acc + 4 * res)
                    else Inr (acc + 2 * res)) 0
        = Inr (0 + (\<Sum>k<nat (n + 1 - 0). simpsons_weight n (0 + int k) * g (0 + int k)))"
    proof (rule for_loop_le_add)
    fix j :: int and a :: real
    assume "0 \<le> j" "j \<le> n"
    then have "cb ctx (lower + of_int j * ((upper - lower) / of_int n)) = Inr (g j)"
      by (rule assms(2))
    then show "(let x = lower + of_int j * ((upper - lower) / of_int n)
             in case cb ctx x of
                  Inl e \<Rightarrow> Inl e
                | Inr res \<Rightarrow>
                    if j = 0 \<or> j = n then Inr (a + res)
                    else if j mod 2 = 1 then Inr (a + 4 * res)
                    else Inr (a + 2 * res)) = Inr (a + simpsons_weight n j * g j)"
      unfolding Let_def by (simp only: sum.case) (simp add: simpsons_weight_def)
  qed (rule assms(1))
  then show ?thesis
    by (simp add: simpsons_def)
qed

lemma simpsons_overflow:
  assumes "\<And>j. 0 \<le> j \<Longrightarrow> j \<le> INT32_MAX \<Longrightarrow>
             \<exists>y. cb ctx (lower + of_int j * ((upper - lower) / of_int INT32_MAX)) = Inr y"
  shows "simpsons lower upper INT32_MAX ctx cb = Inl Undefined"
proof -
  have "for_loop_le 0 INT32_MAX
          (\<lambda>iter acc.
             let x = lower + of_int iter * ((upper - lower) / of_int INT32_MAX)
             in case cb ctx x of
                  Inl e \<Rightarrow> Inl e
                | Inr res \<Rightarrow>
                    if iter = 0 \<or> iter = INT32_MAX then Inr (acc + res)
                    else if iter mod 2 = 1 then Inr (acc + 4 * res)
                    else Inr (acc + 2 * res)) (0::real)
        = Inl Undefined"
  proof (rule for_loop_le_overflow)
    fix j :: int and a :: real
    assume "0 \<le> j" "j \<le> INT32_MAX"
    then obtain y where "cb ctx (lower + of_int j * ((upper - lower) / of_int INT32_MAX)) = Inr y"
      using assms by blast
    then show "\<exists>a'. (let x = lower + of_int j * ((upper - lower) / of_int INT32_MAX)
             in case cb ctx x of
                  Inl e \<Rightarrow> Inl e
                | Inr res \<Rightarrow>
                    if j = 0 \<or> j = INT32_MAX then Inr (a + res)
                    else if j mod 2 = 1 then Inr (a + 4 * res)
                    else Inr (a + 2 * res)) = Inr a'"
      unfolding Let_def by (simp only: sum.case) simp
  qed simp_all
  then show ?thesis
    by (simp add: simpsons_def)
qed















text \<open>
  \<open>linear_integral\<close> is the integral of \<open>m * x + b\<close>: it is the difference of the values
  of an antiderivative at the two ends.
\<close>

lemma linear_antiderivative:
  "((\<lambda>x. m * x\<^sup>2 / 2 + b * x) has_real_derivative m * x + b) (at x)"
  by (auto intro!: derivative_eq_intros)

section \<open>Exactness of the rules\<close>







section \<open>The samples of an interval stay inside the table\<close>

lemma calc_linear_interpolation_non_integer:
  assumes wf: "lut_wf h l" and ni: "of_int \<lfloor>x\<rfloor> \<noteq> x"
    and lo: "- 2147483649 < x" and hi: "x < 2147483647" and out: "\<not> (- 1 < x \<and> x < 0)"
  shows "calc_linear_interpolation h l x =
           (if 0 \<le> \<lfloor>x\<rfloor> \<and> \<lfloor>x\<rfloor> + 1 < len l
            then Inr (h ! lut l ! nat \<lfloor>x\<rfloor>
                      + (x - of_int \<lfloor>x\<rfloor>) * (h ! lut l ! nat (\<lfloor>x\<rfloor> + 1) - h ! lut l ! nat \<lfloor>x\<rfloor>))
            else Inl IndexError)"
proof (cases "0 \<le> x")
  case True
  define i where "i = \<lfloor>x\<rfloor>"
  have i0: "0 \<le> i" using True by (simp add: i_def)
  have imax: "i < INT32_MAX" using hi unfolding i_def by linarith
  have le: "of_int i \<le> x" and btw2: "x < of_int i + 1" unfolding i_def by linarith+
  from ni have "of_int i \<noteq> x" unfolding i_def .
  with le have btw1: "of_int i < x" by linarith
  note btw = btw1 btw2
  show ?thesis
  proof (cases "i + 1 < len l")
    case True
    then show ?thesis
      using wf i0 calc_linear_interpolation_between [OF i0 imax btw, of h l]
      by (simp add: get_lut_index_in_range flip: i_def)
  next
    case False
    have "calc_linear_interpolation h l x = Inl IndexError"
    proof (cases "i < len l")
      case True
      then have "get_lut_index h l i = Inr (h ! lut l ! nat i)"
        using wf i0 by (simp add: get_lut_index_in_range)
      moreover have "get_lut_index h l (i + 1) = Inl IndexError"
        using False by (simp add: get_lut_index_def)
      ultimately show ?thesis
        using calc_linear_interpolation_between [OF i0 imax btw, of h l] by simp
    next
      case False
      then have "get_lut_index h l i = Inl IndexError"
        by (simp add: get_lut_index_def)
      then show ?thesis
        using calc_linear_interpolation_between [OF i0 imax btw, of h l] by simp
    qed
    then show ?thesis
      using False by (simp flip: i_def)
  qed
next
  case False
  with out have x1: "x \<le> - 1" by simp
  then have c: "\<lceil>x\<rceil> \<le> - 1" by (simp add: ceiling_le_iff)
  have f: "\<lfloor>x\<rfloor> < 0" using x1 by linarith
  have "int32_of_double x = Inr \<lceil>x\<rceil>"
    using False lo by (simp add: int32_of_double_neg)
  then show ?thesis
    using ni c f x1 by (simp add: calc_linear_interpolation_def get_lut_index_def Let_def)
qed

lemma calc_linear_interpolation_non_integer_witness:
  "lut_wf [[5, 7, 10]] \<lparr>len = 3, lut = 0\<rparr>
   \<and> of_int \<lfloor>5 / 4 :: real\<rfloor> \<noteq> (5 / 4 :: real)
   \<and> (- 2147483649 :: real) < 5 / 4 \<and> (5 / 4 :: real) < 2147483647
   \<and> \<not> (- 1 < (5 / 4 :: real) \<and> (5 / 4 :: real) < 0)
   \<and> calc_linear_interpolation [[5, 7, 10]] \<lparr>len = 3, lut = 0\<rparr> (5 / 4) = Inr (31 / 4)"
proof -
  have wf: "lut_wf [[5, 7, 10]] \<lparr>len = 3, lut = 0\<rparr>"
    by (simp add: lut_wf_def)
  have fl: "\<lfloor>5 / 4 :: real\<rfloor> = 1"
    by simp
  have ni: "of_int \<lfloor>5 / 4 :: real\<rfloor> \<noteq> (5 / 4 :: real)"
    unfolding fl by simp
  from calc_linear_interpolation_non_integer [OF wf ni]
  have "calc_linear_interpolation [[5, 7, 10]] \<lparr>len = 3, lut = 0\<rparr> (5 / 4) = Inr (31 / 4)"
    unfolding fl by simp
  with wf ni show ?thesis
    by simp
qed

lemma calc_linear_interpolation_total:
  assumes wf: "lut_wf h l" and lo: "0 \<le> x" and hi: "x \<le> of_int (len l - 1)"
  shows "\<exists>y. calc_linear_interpolation h l x = Inr y"
proof (cases "of_int \<lfloor>x\<rfloor> = x")
  case True
  define i where "i = \<lfloor>x\<rfloor>"
  have x: "x = of_int i" unfolding i_def using True by (rule sym)
  have "0 \<le> i" "i < len l" using lo hi unfolding x by simp_all
  moreover have "len l \<le> INT32_MAX" using wf by (simp add: lut_wf_def)
  ultimately show ?thesis
    using wf unfolding x
    by (simp add: calc_linear_interpolation_int get_lut_index_in_range)
next
  case False
  have len: "len l \<le> INT32_MAX" using wf by (simp add: lut_wf_def)
  have "x \<noteq> of_int (len l - 1)"
  proof
    assume "x = of_int (len l - 1)"
    then have "of_int \<lfloor>x\<rfloor> = x" by (simp only: floor_of_int)
    with False show False ..
  qed
  with hi have "x < of_int (len l - 1)" by simp
  then have fl: "\<lfloor>x\<rfloor> + 1 < len l" by linarith
  have "x < 2147483647" using hi len by linarith
  moreover have "- 2147483649 < x" "\<not> (- 1 < x \<and> x < 0)" using lo by simp_all
  ultimately show ?thesis
    using calc_linear_interpolation_non_integer [OF wf False] lo fl by simp
qed

lemma calc_linear_interpolation_heap_cong:
  assumes "lut l < length h" and "lut l < length h'" and "h' ! lut l = h ! lut l"
  shows "calc_linear_interpolation h' l x = calc_linear_interpolation h l x"
proof -
  have eq: "\<And>i. get_lut_index h' l i = get_lut_index h l i"
    using assms by (simp add: get_lut_index_def load_double_def)
  show ?thesis
    unfolding calc_linear_interpolation_def eq by (rule refl)
qed

lemma summation_cb_cong:
  assumes "\<And>x. cb ctx x = cb' ctx x"
  shows "select_summation a lower upper n ctx cb = select_summation a lower upper n ctx cb'"
proof -
  have eq: "cb ctx = cb' ctx"
    using assms by (simp add: fun_eq_iff)
  have "left_riemann lower upper n ctx cb = left_riemann lower upper n ctx cb'"
    unfolding left_riemann_def eq by (rule refl)
  moreover have "mid_riemann lower upper n ctx cb = mid_riemann lower upper n ctx cb'"
    unfolding mid_riemann_def eq by (rule refl)
  moreover have "right_riemann lower upper n ctx cb = right_riemann lower upper n ctx cb'"
    unfolding right_riemann_def eq by (rule refl)
  moreover have "trapezoidal lower upper n ctx cb = trapezoidal lower upper n ctx cb'"
    unfolding trapezoidal_def eq by (rule refl)
  moreover have "simpsons lower upper n ctx cb = simpsons lower upper n ctx cb'"
    unfolding simpsons_def eq by (rule refl)
  ultimately show ?thesis
    by (simp add: select_summation_def)
qed

lemma sample_point_bounds:
  fixes lower upper :: real
  assumes "lower \<le> upper" and "1 \<le> n" and "0 \<le> j" and "j \<le> n"
  shows "lower \<le> lower + of_int j * ((upper - lower) / of_int n)"
    and "lower + of_int j * ((upper - lower) / of_int n) \<le> upper"
proof -
  define h where "h = (upper - lower) / of_int n"
  have h0: "0 \<le> h" using assms by (simp add: h_def)
  have U: "upper = lower + of_int n * h" using assms by (simp add: h_def)
  have "of_int j * h \<le> of_int n * h"
    using assms h0 by (intro mult_right_mono) simp_all
  moreover have "0 \<le> of_int j * h"
    using assms h0 by simp
  ultimately show "lower \<le> lower + of_int j * ((upper - lower) / of_int n)"
    and "lower + of_int j * ((upper - lower) / of_int n) \<le> upper"
    unfolding h_def [symmetric] using U by simp_all
qed

lemma mid_point_bounds:
  fixes lower upper :: real
  assumes "lower \<le> upper" and "1 \<le> n" and "0 \<le> j" and "j < n"
  shows "lower \<le> lower + of_int j * ((upper - lower) / of_int n) + (upper - lower) / of_int n / 2"
    and "lower + of_int j * ((upper - lower) / of_int n) + (upper - lower) / of_int n / 2 \<le> upper"
proof -
  define h where "h = (upper - lower) / of_int n"
  have h0: "0 \<le> h" using assms by (simp add: h_def)
  have U: "upper = lower + of_int n * h" using assms by (simp add: h_def)
  have "of_int (j + 1) * h \<le> of_int n * h"
    using assms h0 by (intro mult_right_mono) simp_all
  then have "of_int j * h + h \<le> of_int n * h"
    by (simp add: algebra_simps)
  moreover have "0 \<le> of_int j * h"
    using assms h0 by simp
  ultimately show "lower \<le> lower + of_int j * ((upper - lower) / of_int n) + (upper - lower) / of_int n / 2"
    and "lower + of_int j * ((upper - lower) / of_int n) + (upper - lower) / of_int n / 2 \<le> upper"
    unfolding h_def [symmetric] using U h0 by simp_all
qed

lemma Inr_projr: "\<exists>y. r = Inr y \<Longrightarrow> r = Inr (projr r)"
  by auto

lemma summation_total:
  assumes n: "1 \<le> n" "n \<le> INT32_MAX" and a: "\<not> (a = SIMPSONS \<and> n = INT32_MAX)"
    and lu: "lower \<le> upper"
    and ok: "\<And>x. lower \<le> x \<Longrightarrow> x \<le> upper \<Longrightarrow> \<exists>y. cb ctx x = Inr y"
  shows "\<exists>d. select_summation a lower upper n ctx cb = Inr d"
proof -
  define g where "g x = projr (cb ctx x)" for x
  have val: "\<And>x. lower \<le> x \<Longrightarrow> x \<le> upper \<Longrightarrow> cb ctx x = Inr (g x)"
    unfolding g_def by (rule Inr_projr) (rule ok)
  have pt: "\<And>j. 0 \<le> j \<Longrightarrow> j \<le> n \<Longrightarrow>
      cb ctx (lower + of_int j * ((upper - lower) / of_int n))
        = Inr (g (lower + of_int j * ((upper - lower) / of_int n)))"
    using sample_point_bounds [OF lu n(1)] by (intro val) simp_all
  have "\<exists>d. left_riemann lower upper n ctx cb = Inr d"
  proof (rule exI, rule left_riemann_value)
    fix j :: int assume "0 \<le> j" "j < n"
    then show "cb ctx (lower + of_int j * ((upper - lower) / of_int n))
        = Inr (g (lower + of_int j * ((upper - lower) / of_int n)))"
      by (intro pt) simp_all
  qed
  moreover have "\<exists>d. mid_riemann lower upper n ctx cb = Inr d"
  proof (rule exI, rule mid_riemann_value)
    fix j :: int assume "0 \<le> j" "j < n"
    then show "cb ctx (lower + of_int j * ((upper - lower) / of_int n) + (upper - lower) / of_int n / 2)
        = Inr (g (lower + of_int j * ((upper - lower) / of_int n) + (upper - lower) / of_int n / 2))"
      using mid_point_bounds [OF lu n(1)] by (intro val) simp_all
  qed
  moreover have "\<exists>d. right_riemann lower upper n ctx cb = Inr d"
  proof (rule exI, rule right_riemann_value)
    fix j :: int assume "0 \<le> j" "j < n"
    then show "cb ctx (lower + of_int (j + 1) * ((upper - lower) / of_int n))
        = Inr (g (lower + of_int (j + 1) * ((upper - lower) / of_int n)))"
      by (intro pt) simp_all
  qed
  moreover have "\<exists>d. trapezoidal lower upper n ctx cb = Inr d"
  proof (rule exI, rule trapezoidal_value)
    show "cb ctx lower = Inr (g lower)" "cb ctx upper = Inr (g upper)"
      using lu by (simp_all add: val)
    fix j :: int assume "1 \<le> j" "j < n"
    then show "cb ctx (lower + of_int j * ((upper - lower) / of_int n))
        = Inr (g (lower + of_int j * ((upper - lower) / of_int n)))"
      by (intro pt) simp_all
  qed
  moreover have "a = SIMPSONS \<Longrightarrow> \<exists>d. simpsons lower upper n ctx cb = Inr d"
  proof (rule exI, rule simpsons_value)
    assume "a = SIMPSONS"
    then show "n < INT32_MAX" using a n(2) by simp
  qed (rule pt)
  ultimately show ?thesis
    by (auto simp: select_summation_def)
qed

lemma summation_overflow:
  assumes lu: "lower \<le> upper"
    and ok: "\<And>x. lower \<le> x \<Longrightarrow> x \<le> upper \<Longrightarrow> \<exists>y. cb ctx x = Inr y"
  shows "select_summation SIMPSONS lower upper INT32_MAX ctx cb = Inl Undefined"
proof -
  have "simpsons lower upper INT32_MAX ctx cb = Inl Undefined"
  proof (rule simpsons_overflow)
    fix j :: int assume "0 \<le> j" "j \<le> INT32_MAX"
    then show "\<exists>y. cb ctx (lower + of_int j * ((upper - lower) / of_int INT32_MAX)) = Inr y"
      using sample_point_bounds [OF lu, of INT32_MAX j] by (intro ok) simp_all
  qed
  then show ?thesis
    by (simp add: select_summation_def)
qed

lemma interval_in_table:
  fixes x :: real
  assumes "1 \<le> sec" and "sec < len l" and "of_int (sec - 1) \<le> x" and "x \<le> of_int sec"
  shows "0 \<le> x" and "x \<le> of_int (len l - 1)"
proof -
  have "(0::real) \<le> of_int (sec - 1)" using assms(1) by simp
  then show "0 \<le> x" using assms(3) by linarith
  have "(of_int sec :: real) \<le> of_int (len l - 1)" using assms(2) by simp
  then show "x \<le> of_int (len l - 1)" using assms(4) by linarith
qed

lemma interval_total:
  assumes n: "1 \<le> n" "n \<le> INT32_MAX" and a: "\<not> (a = SIMPSONS \<and> n = INT32_MAX)"
    and wf: "lut_wf h l" and sec: "1 \<le> sec" "sec < len l"
  shows "\<exists>d. select_summation a (of_int (sec - 1)) (of_int sec) n l (calc_linear_interpolation h) = Inr d"
proof (rule summation_total [OF n a])
  show "(of_int (sec - 1) :: real) \<le> of_int sec" by simp
  fix x :: real assume "of_int (sec - 1) \<le> x" "x \<le> of_int sec"
  then show "\<exists>y. calc_linear_interpolation h l x = Inr y"
    using interval_in_table [OF sec] by (intro calc_linear_interpolation_total [OF wf])
qed

lemma interval_overflow:
  assumes wf: "lut_wf h l" and sec: "1 \<le> sec" "sec < len l"
  shows "select_summation SIMPSONS (of_int (sec - 1)) (of_int sec) INT32_MAX l
           (calc_linear_interpolation h) = Inl Undefined"
proof (rule summation_overflow)
  show "(of_int (sec - 1) :: real) \<le> of_int sec" by simp
  fix x :: real assume "of_int (sec - 1) \<le> x" "x \<le> of_int sec"
  then show "\<exists>y. calc_linear_interpolation h l x = Inr y"
    using interval_in_table [OF sec] by (intro calc_linear_interpolation_total [OF wf])
qed

section \<open>Loops with an invariant, and the parallel loops\<close>

lemma for_loop_invariant:
  assumes "I i s" and "i \<le> n"
    and "\<And>j t. i \<le> j \<Longrightarrow> j < n \<Longrightarrow> I j t \<Longrightarrow> \<exists>t'. body j t = Inr t' \<and> I (j + 1) t'"
  shows "\<exists>t. for_loop i n body s = Inr t \<and> I n t"
  using assms
proof (induction "nat (n - i)" arbitrary: i s)
  case 0
  then have "i = n" by simp
  with "0.prems"(1) show ?case
    by (simp add: for_loop.simps)
next
  case (Suc m)
  then have lt: "i < n" and m: "m = nat (n - (i + 1))" by linarith+
  obtain t' where t': "body i s = Inr t'" "I (i + 1) t'"
    using Suc.prems(3) [of i s] Suc.prems(1) lt by auto
  have "\<exists>t. for_loop (i + 1) n body t' = Inr t \<and> I n t"
    using Suc.hyps(1) [OF m t'(2)] Suc.prems(3) lt by simp
  then show ?case
    using lt t'(1) by (subst for_loop.simps) simp
qed

lemma for_loop_first_fails:
  "i < n \<Longrightarrow> body i s = Inl e \<Longrightarrow> for_loop i n body s = Inl e"
  by (subst for_loop.simps) simp

lemma for_loop_empty: "n \<le> i \<Longrightarrow> for_loop i n body s = Inr s"
  by (subst for_loop.simps) simp

lemma for_loop_preserves:
  assumes "for_loop i n body s = Inr t" and "P s"
    and "\<And>j u u'. P u \<Longrightarrow> body j u = Inr u' \<Longrightarrow> P u'"
  shows "P t"
  using assms
proof (induction i n body s rule: for_loop.induct)
  case (1 i n body s)
  show ?case
  proof (cases "i < n")
    case True
    with "1.prems"(1) obtain s' where s': "body i s = Inr s'" "for_loop (i + 1) n body s' = Inr t"
      by (subst (asm) for_loop.simps) (auto split: sum.splits)
    have "P s'" using "1.prems"(2,3) s'(1) by blast
    then show ?thesis
      using "1.IH" [OF True s'(1) s'(2)] "1.prems"(3) by blast
  next
    case False
    with "1.prems"(1) have "t = s"
      by (subst (asm) for_loop.simps) simp
    with "1.prems"(2) show ?thesis by simp
  qed
qed

lemma omp_for_invariant:
  assumes "I d s"
    and "\<And>x d' t. x \<in> set xs \<Longrightarrow> I d' t \<Longrightarrow> \<exists>t'. body x t = Inr t' \<and> I (d' @ [x]) t'"
  shows "\<exists>t. omp_for xs body s = Inr t \<and> I (d @ xs) t"
  using assms
proof (induction xs arbitrary: d s)
  case Nil
  then show ?case by simp
next
  case (Cons x xs)
  obtain t' where t': "body x s = Inr t'" "I (d @ [x]) t'"
    using Cons.prems(2) [of x d s] Cons.prems(1) by auto
  have "\<exists>t. omp_for xs body t' = Inr t \<and> I ((d @ [x]) @ xs) t"
    using Cons.IH [OF t'(2)] Cons.prems(2) by simp
  then show ?case
    using t'(1) by simp
qed

lemma omp_for_preserves:
  assumes "omp_for xs body s = Inr t" and "P s"
    and "\<And>j u u'. P u \<Longrightarrow> body j u = Inr u' \<Longrightarrow> P u'"
  shows "P t"
  using assms
proof (induction xs arbitrary: s)
  case Nil
  then show ?case by simp
next
  case (Cons x xs)
  from Cons.prems(1) obtain s' where s': "body x s = Inr s'" "omp_for xs body s' = Inr t"
    by (auto split: sum.splits)
  have "P s'" using Cons.prems(2,3) s'(1) by blast
  then show ?case
    using Cons.IH [OF s'(2)] Cons.prems(3) by blast
qed

lemma omp_for_add:
  fixes t :: "int \<Rightarrow> real"
  assumes "\<And>x a. x \<in> set xs \<Longrightarrow> body x a = Inr (a + t x)"
  shows "omp_for xs body a = Inr (a + sum_list (map t xs))"
  using assms by (induction xs arbitrary: a) (simp_all add: add.assoc)

lemma omp_partial_sums_value:
  fixes t :: "int \<Rightarrow> real"
  assumes "\<And>x a. x \<in> set (concat chunks) \<Longrightarrow> body x a = Inr (a + t x)"
  shows "omp_partial_sums chunks body = Inr (map (\<lambda>c. sum_list (map t c)) chunks)"
  using assms
proof (induction chunks)
  case Nil
  then show ?case by simp
next
  case (Cons c chunks)
  have "omp_for c body 0 = Inr (0 + sum_list (map t c))"
    by (rule omp_for_add) (simp add: Cons.prems)
  moreover have "omp_partial_sums chunks body = Inr (map (\<lambda>c. sum_list (map t c)) chunks)"
    by (rule Cons.IH) (simp add: Cons.prems)
  ultimately show ?case by simp
qed

lemma foldl_add_sum_list: "foldl (+) (a::real) xs = a + sum_list xs"
  by (induction xs arbitrary: a) (simp_all add: add.assoc)

lemma omp_for_reduction_value:
  fixes t :: "int \<Rightarrow> real"
  assumes "\<And>x a. x \<in> set (concat chunks) \<Longrightarrow> body x a = Inr (a + t x)"
  shows "omp_for_reduction chunks body init = Inr (init + sum_list (map t (concat chunks)))"
proof -
  have "sum_list (map (\<lambda>c. sum_list (map t c)) chunks) = sum_list (map t (concat chunks))"
    by (induction chunks) simp_all
  moreover have "omp_partial_sums chunks body = Inr (map (\<lambda>c. sum_list (map t c)) chunks)"
    by (rule omp_partial_sums_value) (rule assms)
  ultimately show ?thesis
    by (simp add: omp_for_reduction_def foldl_add_sum_list)
qed

lemma omp_for_first_fails:
  "xs \<noteq> [] \<Longrightarrow> body (hd xs) s = Inl e \<Longrightarrow> omp_for xs body s = Inl e"
  by (cases xs) simp_all

lemma upto_as_map: "[1..n] = map (\<lambda>k. 1 + int k) [0..<nat n]"
proof (induction "nat n" arbitrary: n)
  case 0
  then show ?case by simp
next
  case (Suc m)
  then have n: "1 \<le> n" and m: "m = nat (n - 1)" by linarith+
  have "[1..n] = [1..n - 1] @ [n]"
    using n by (simp add: upto_rec2)
  also have "[1..n - 1] = map (\<lambda>k. 1 + int k) [0..<nat (n - 1)]"
    by (rule Suc.hyps(1) [OF m])
  also have "map (\<lambda>k. 1 + int k) [0..<nat (n - 1)] @ [n] = map (\<lambda>k. 1 + int k) [0..<nat n]"
  proof -
    have "nat n = Suc (nat (n - 1))" using n by simp
    moreover have "1 + int (nat (n - 1)) = n" using n by simp
    ultimately show ?thesis by simp
  qed
  finally show ?case .
qed

lemma sum_list_scheduled:
  fixes t :: "int \<Rightarrow> real"
  assumes "mset xs = mset [1..n]"
  shows "sum_list (map t xs) = (\<Sum>k<nat n. t (1 + int k))"
proof -
  have "sum_list (map t xs) = sum_mset (image_mset t (mset xs))"
    by (simp add: sum_mset_sum_list [symmetric])
  also have "\<dots> = sum_list (map t [1..n])"
    by (simp add: assms sum_mset_sum_list [symmetric])
  also have "\<dots> = (\<Sum>k<nat n. t (1 + int k))"
    by (simp add: upto_as_map comp_def interv_sum_list_conv_sum_set_nat
          flip: atLeast0LessThan)
  finally show ?thesis .
qed

section \<open>One benchmark iteration\<close>

lemma velocity_at_0 [simp]: "velocity_at \<delta> 0 = 0"
  by (simp add: velocity_at_def)

lemma velocity_at_step:
  "1 \<le> j \<Longrightarrow> velocity_at \<delta> (nat (j - 1)) + \<delta> j = velocity_at \<delta> (nat j)"
proof -
  assume j: "1 \<le> j"
  then have "nat j = Suc (nat (j - 1))" "1 + int (nat (j - 1)) = j" by simp_all
  then show ?thesis by (simp add: velocity_at_def)
qed

lemma store_double_vel:
  assumes "0 \<le> i" and "i < int (length b)"
  shows "store_double (h @ [b]) (length h) i v = Inr (h @ [b[nat i := v]])"
  using assms by (simp add: store_double_def)

lemma load_double_vel:
  assumes "0 \<le> i" and "i < int (length b)"
  shows "load_double (h @ [b]) (length h) i = Inr (b ! nat i)"
  using assms by (simp add: load_double_def)

lemma seq_velocity_loop:
  assumes len: "1 \<le> len l" and p: "lut vel_lut = length h"
    and \<delta>: "\<And>sec b. 1 \<le> sec \<Longrightarrow> sec < len l \<Longrightarrow> length b = nat (len l) \<Longrightarrow>
          sum_cb (of_int (sec - 1)) (of_int sec) (step args) l (calc_linear_interpolation (h @ [b]))
            = Inr (\<delta> sec)"
    and blk: "length blk = nat (len l)" "blk ! 0 = 0"
  shows "for_loop 1 (len l)
             (\<lambda>sec (vel_final, hv).
                case sum_cb (of_int (sec - 1)) (of_int sec) (step args) l
                       (calc_linear_interpolation hv) of
                  Inl e \<Rightarrow> Inl e
                | Inr d \<Rightarrow>
                    (case store_double hv (lut vel_lut) sec (vel_final + d) of
                       Inl e \<Rightarrow> Inl e
                     | Inr hv' \<Rightarrow> Inr (vel_final + d, hv')))
             (0, h @ [blk])
         = Inr (velocity_at \<delta> (nat (len l) - 1), h @ [velocity_table \<delta> (nat (len l))])"
    (is "for_loop 1 _ ?body _ = _")
proof -
  define I where "I i s \<longleftrightarrow>
      fst s = velocity_at \<delta> (nat (i - 1))
      \<and> (\<exists>b. snd s = h @ [b] \<and> length b = nat (len l) \<and> (\<forall>k<nat i. b ! k = velocity_at \<delta> k))"
    for i :: int and s :: "real \<times> heap"
  have "\<exists>t. for_loop 1 (len l) ?body (0, h @ [blk]) = Inr t \<and> I (len l) t"
  proof (rule for_loop_invariant)
    show "I 1 (0, h @ [blk])"
      using blk by (simp add: I_def)
    show "1 \<le> len l" by (rule len)
  next
    fix j :: int and t :: "real \<times> heap"
    assume j: "1 \<le> j" "j < len l" and inv: "I j t"
    obtain vf hv where t: "t = (vf, hv)" by (cases t)
    from inv obtain b where vf: "vf = velocity_at \<delta> (nat (j - 1))"
      and hv: "hv = h @ [b]" and lb: "length b = nat (len l)"
      and pre: "\<forall>k<nat j. b ! k = velocity_at \<delta> k"
      by (auto simp: I_def t)
    have d: "sum_cb (of_int (j - 1)) (of_int j) (step args) l (calc_linear_interpolation hv)
              = Inr (\<delta> j)"
      unfolding hv by (rule \<delta> [OF j lb])
    have st: "store_double hv (lut vel_lut) j (vf + \<delta> j) = Inr (h @ [b[nat j := vf + \<delta> j]])"
      unfolding hv p using j lb by (intro store_double_vel) simp_all
    have body: "?body j t = Inr (vf + \<delta> j, h @ [b[nat j := vf + \<delta> j]])"
      unfolding t by (simp only: prod.case d st sum.case)
    have new: "vf + \<delta> j = velocity_at \<delta> (nat j)"
      unfolding vf using j(1) by (rule velocity_at_step)
    have "I (j + 1) (vf + \<delta> j, h @ [b[nat j := vf + \<delta> j]])"
      unfolding I_def
    proof (intro conjI exI)
      show "fst (vf + \<delta> j, h @ [b[nat j := vf + \<delta> j]]) = velocity_at \<delta> (nat (j + 1 - 1))"
        using new by simp
      show "snd (vf + \<delta> j, h @ [b[nat j := vf + \<delta> j]]) = h @ [b[nat j := vf + \<delta> j]]"
        by simp
      show "length (b[nat j := vf + \<delta> j]) = nat (len l)"
        using lb by simp
      show "\<forall>k<nat (j + 1). b[nat j := vf + \<delta> j] ! k = velocity_at \<delta> k"
      proof (intro allI impI)
        fix k assume "k < nat (j + 1)"
        then have "k < nat j \<or> k = nat j" using j(1) by linarith
        then show "b[nat j := vf + \<delta> j] ! k = velocity_at \<delta> k"
          using pre new lb j by (auto simp: nth_list_update)
      qed
    qed
    with body show "\<exists>t'. ?body j t = Inr t' \<and> I (j + 1) t'"
      by blast
  qed
  then obtain t where run: "for_loop 1 (len l) ?body (0, h @ [blk]) = Inr t" and fin: "I (len l) t"
    by blast
  from fin obtain b where vf: "fst t = velocity_at \<delta> (nat (len l - 1))"
    and hv: "snd t = h @ [b]" and lb: "length b = nat (len l)"
    and all: "\<forall>k<nat (len l). b ! k = velocity_at \<delta> k"
    by (auto simp: I_def)
  have "b = velocity_table \<delta> (nat (len l))"
    using lb all by (intro nth_equalityI) (simp_all add: velocity_table_def)
  moreover have "nat (len l - 1) = nat (len l) - 1"
    by simp
  ultimately have "t = (velocity_at \<delta> (nat (len l) - 1), h @ [velocity_table \<delta> (nat (len l))])"
    using vf hv by (cases t) simp
  with run show ?thesis by simp
qed

lemma seq_position_loop:
  fixes \<epsilon> :: "int \<Rightarrow> real"
  assumes "\<And>sec. 1 \<le> sec \<Longrightarrow> sec < len vel_lut \<Longrightarrow>
          sum_cb (of_int (sec - 1)) (of_int sec) (step args) vel_lut (calc_linear_interpolation h1)
            = Inr (\<epsilon> sec)"
  shows "for_loop 1 (len vel_lut)
             (\<lambda>sec pos_final.
                case sum_cb (of_int (sec - 1)) (of_int sec) (step args) vel_lut
                       (calc_linear_interpolation h1) of
                  Inl e \<Rightarrow> Inl e
                | Inr d \<Rightarrow> Inr (pos_final + d))
             0
         = Inr (\<Sum>k<nat (len vel_lut - 1). \<epsilon> (1 + int k))"
    (is "for_loop 1 _ ?body _ = _")
proof -
  have "for_loop 1 (len vel_lut) ?body 0 = Inr (0 + (\<Sum>k<nat (len vel_lut - 1). \<epsilon> (1 + int k)))"
    by (rule for_loop_add) (simp only: assms sum.case)
  then show ?thesis by simp
qed

lemma omp_position_loop:
  fixes \<epsilon> :: "int \<Rightarrow> real"
  assumes \<epsilon>: "\<And>sec. 1 \<le> sec \<Longrightarrow> sec < len vel_lut \<Longrightarrow>
          sum_cb (of_int (sec - 1)) (of_int sec) (step args) vel_lut (calc_linear_interpolation h1)
            = Inr (\<epsilon> sec)"
    and chunks: "mset (concat chunks) = mset [1..len vel_lut - 1]"
  shows "omp_for_reduction chunks
             (\<lambda>sec pos_final.
                case sum_cb (of_int (sec - 1)) (of_int sec) (step args) vel_lut
                       (calc_linear_interpolation h1) of
                  Inl e \<Rightarrow> Inl e
                | Inr d \<Rightarrow> Inr (pos_final + d))
             0
         = Inr (\<Sum>k<nat (len vel_lut - 1). \<epsilon> (1 + int k))"
    (is "omp_for_reduction _ ?body _ = _")
proof -
  have mem: "\<And>x. x \<in> set (concat chunks) \<Longrightarrow> 1 \<le> x \<and> x < len vel_lut"
  proof -
    fix x assume "x \<in> set (concat chunks)"
    then have "x \<in> set [1..len vel_lut - 1]"
      using chunks by (metis set_mset_mset)
    then show "1 \<le> x \<and> x < len vel_lut" by simp
  qed
  have "omp_for_reduction chunks ?body 0 = Inr (0 + sum_list (map \<epsilon> (concat chunks)))"
  proof (rule omp_for_reduction_value)
    fix x :: int and a :: real
    assume "x \<in> set (concat chunks)"
    then have "1 \<le> x" "x < len vel_lut" using mem by simp_all
    then have "sum_cb (of_int (x - 1)) (of_int x) (step args) vel_lut (calc_linear_interpolation h1)
            = Inr (\<epsilon> x)"
      by (rule \<epsilon>)
    then show "?body x a = Inr (a + \<epsilon> x)"
      by (simp only: sum.case)
  qed
  also have "sum_list (map \<epsilon> (concat chunks)) = (\<Sum>k<nat (len vel_lut - 1). \<epsilon> (1 + int k))"
    by (rule sum_list_scheduled [OF chunks])
  finally show ?thesis by simp
qed

lemma omp_difference_loop:
  assumes len: "1 \<le> len l" and p: "lut vel_lut = length h"
    and \<delta>: "\<And>sec b. 1 \<le> sec \<Longrightarrow> sec < len l \<Longrightarrow> length b = nat (len l) \<Longrightarrow>
          sum_cb (of_int (sec - 1)) (of_int sec) (step args) l (calc_linear_interpolation (h @ [b]))
            = Inr (\<delta> sec)"
    and blk: "length blk = nat (len l)" "blk ! 0 = 0"
    and order: "mset order = mset [1..len l - 1]"
  shows "omp_for order
             (\<lambda>sec hv.
                case sum_cb (of_int (sec - 1)) (of_int sec) (step args) l
                       (calc_linear_interpolation hv) of
                  Inl e \<Rightarrow> Inl e
                | Inr d \<Rightarrow> store_double hv (lut vel_lut) sec d)
             (h @ [blk])
         = Inr (h @ [diff_table \<delta> (nat (len l))])"
    (is "omp_for _ ?body _ = _")
proof -
  have mem: "set order = {1..len l - 1}"
    using order by (metis set_mset_mset set_upto)
  define I where "I d hv \<longleftrightarrow>
      (\<exists>b. hv = h @ [b] \<and> length b = nat (len l) \<and> b ! 0 = 0 \<and> (\<forall>k\<in>set d. b ! nat k = \<delta> k))"
    for d :: "int list" and hv :: heap
  have "\<exists>t. omp_for order ?body (h @ [blk]) = Inr t \<and> I ([] @ order) t"
  proof (rule omp_for_invariant)
    show "I [] (h @ [blk])"
      using blk by (simp add: I_def)
  next
    fix x :: int and d :: "int list" and hv :: heap
    assume x: "x \<in> set order" and inv: "I d hv"
    from x mem have x1: "1 \<le> x" "x < len l" by simp_all
    from inv obtain b where hv: "hv = h @ [b]" and lb: "length b = nat (len l)"
      and b0: "b ! 0 = 0" and pre: "\<forall>k\<in>set d. b ! nat k = \<delta> k"
      by (auto simp: I_def)
    have d: "sum_cb (of_int (x - 1)) (of_int x) (step args) l (calc_linear_interpolation hv)
              = Inr (\<delta> x)"
      unfolding hv by (rule \<delta> [OF x1 lb])
    have st: "store_double hv (lut vel_lut) x (\<delta> x) = Inr (h @ [b[nat x := \<delta> x]])"
      unfolding hv p using x1 lb by (intro store_double_vel) simp_all
    have body: "?body x hv = Inr (h @ [b[nat x := \<delta> x]])"
      by (simp only: d st sum.case)
    have "I (d @ [x]) (h @ [b[nat x := \<delta> x]])"
      unfolding I_def
    proof (intro exI conjI)
      show "h @ [b[nat x := \<delta> x]] = h @ [b[nat x := \<delta> x]]" by (rule refl)
      show "length (b[nat x := \<delta> x]) = nat (len l)" using lb by simp
      show "b[nat x := \<delta> x] ! 0 = 0" using b0 x1 by simp
      show "\<forall>k\<in>set (d @ [x]). b[nat x := \<delta> x] ! nat k = \<delta> k"
      proof
        fix k assume "k \<in> set (d @ [x])"
        then consider "k = x" | "k \<in> set d" "nat k \<noteq> nat x" | "k \<in> set d" "nat k = nat x"
          by auto
        then show "b[nat x := \<delta> x] ! nat k = \<delta> k"
        proof cases
          case 1
          then show ?thesis using x1 lb by simp
        next
          case 2
          then show ?thesis using pre by simp
        next
          case 3
          then have "k = x" using x1 by linarith
          then show ?thesis using x1 lb by simp
        qed
      qed
    qed
    with body show "\<exists>t'. ?body x hv = Inr t' \<and> I (d @ [x]) t'"
      by blast
  qed
  then obtain t where run: "omp_for order ?body (h @ [blk]) = Inr t" and fin: "I order t"
    by auto
  from fin obtain b where t: "t = h @ [b]" and lb: "length b = nat (len l)"
    and b0: "b ! 0 = 0" and all: "\<forall>k\<in>set order. b ! nat k = \<delta> k"
    by (auto simp: I_def)
  have "b = diff_table \<delta> (nat (len l))"
  proof (rule nth_equalityI)
    show "length b = length (diff_table \<delta> (nat (len l)))"
      using lb by (simp add: diff_table_def)
    fix i assume i: "i < length b"
    show "b ! i = diff_table \<delta> (nat (len l)) ! i"
    proof (cases "i = 0")
      case True
      then show ?thesis using b0 i lb by (simp add: diff_table_def)
    next
      case False
      then have "int i \<in> set order" using i lb mem by auto
      then have "b ! nat (int i) = \<delta> (int i)" using all by blast
      then show ?thesis using False i lb by (simp add: diff_table_def)
    qed
  qed
  with run t show ?thesis by simp
qed

lemma diff_table_nth:
  "k < N \<Longrightarrow> diff_table \<delta> N ! k = (if k = 0 then 0 else \<delta> (int k))"
  by (simp add: diff_table_def)

lemma omp_running_sum_loop:
  assumes len: "1 \<le> len vel_lut" and p: "lut vel_lut = length h"
  shows "for_loop 0 (len vel_lut)
             (\<lambda>index (vel_final, hv).
                case load_double hv (lut vel_lut) index of
                  Inl e \<Rightarrow> Inl e
                | Inr v \<Rightarrow>
                    (case store_double hv (lut vel_lut) index (vel_final + v) of
                       Inl e \<Rightarrow> Inl e
                     | Inr hv' \<Rightarrow> Inr (vel_final + v, hv')))
             (0, h @ [diff_table \<delta> (nat (len vel_lut))])
         = Inr (velocity_at \<delta> (nat (len vel_lut) - 1), h @ [velocity_table \<delta> (nat (len vel_lut))])"
    (is "for_loop 0 _ ?body _ = _")
proof -
  define N where "N = nat (len vel_lut)"
  define I where "I i s \<longleftrightarrow>
      fst s = velocity_at \<delta> (nat (i - 1))
      \<and> (\<exists>b. snd s = h @ [b] \<and> length b = N
              \<and> (\<forall>k<nat i. b ! k = velocity_at \<delta> k)
              \<and> (\<forall>k. nat i \<le> k \<and> k < N \<longrightarrow> b ! k = diff_table \<delta> N ! k))"
    for i :: int and s :: "real \<times> heap"
  have "\<exists>t. for_loop 0 (len vel_lut) ?body (0, h @ [diff_table \<delta> N]) = Inr t \<and> I (len vel_lut) t"
  proof (rule for_loop_invariant)
    show "I 0 (0, h @ [diff_table \<delta> N])"
      by (simp add: I_def diff_table_def)
    show "0 \<le> len vel_lut" using len by simp
  next
    fix j :: int and t :: "real \<times> heap"
    assume j: "0 \<le> j" "j < len vel_lut" and inv: "I j t"
    obtain vf hv where t: "t = (vf, hv)" by (cases t)
    from inv obtain b where vf: "vf = velocity_at \<delta> (nat (j - 1))"
      and hv: "hv = h @ [b]" and lb: "length b = N"
      and pre: "\<forall>k<nat j. b ! k = velocity_at \<delta> k"
      and post: "\<forall>k. nat j \<le> k \<and> k < N \<longrightarrow> b ! k = diff_table \<delta> N ! k"
      by (auto simp: I_def t)
    have jN: "nat j < N" using j by (simp add: N_def)
    have ld: "load_double hv (lut vel_lut) j = Inr (b ! nat j)"
      unfolding hv p using j jN lb by (intro load_double_vel) simp_all
    have cur: "b ! nat j = (if j = 0 then 0 else \<delta> j)"
      using post jN j by (simp add: diff_table_nth)
    have new: "vf + b ! nat j = velocity_at \<delta> (nat j)"
    proof (cases "j = 0")
      case True
      then show ?thesis using vf cur by simp
    next
      case False
      then have "1 \<le> j" using j by simp
      then show ?thesis unfolding vf using cur False by (simp add: velocity_at_step)
    qed
    have st: "store_double hv (lut vel_lut) j (vf + b ! nat j) = Inr (h @ [b[nat j := vf + b ! nat j]])"
      unfolding hv p using j jN lb by (intro store_double_vel) simp_all
    have body: "?body j t = Inr (vf + b ! nat j, h @ [b[nat j := vf + b ! nat j]])"
      unfolding t by (simp only: prod.case ld st sum.case)
    have "I (j + 1) (vf + b ! nat j, h @ [b[nat j := vf + b ! nat j]])"
      unfolding I_def
    proof (intro conjI exI)
      show "fst (vf + b ! nat j, h @ [b[nat j := vf + b ! nat j]]) = velocity_at \<delta> (nat (j + 1 - 1))"
        using new by simp
      show "snd (vf + b ! nat j, h @ [b[nat j := vf + b ! nat j]]) = h @ [b[nat j := vf + b ! nat j]]"
        by simp
      show "length (b[nat j := vf + b ! nat j]) = N"
        using lb by simp
      show "\<forall>k<nat (j + 1). b[nat j := vf + b ! nat j] ! k = velocity_at \<delta> k"
      proof (intro allI impI)
        fix k assume "k < nat (j + 1)"
        then have "k < nat j \<or> k = nat j" using j(1) by linarith
        then show "b[nat j := vf + b ! nat j] ! k = velocity_at \<delta> k"
          using pre new lb jN by (auto simp: nth_list_update)
      qed
      show "\<forall>k. nat (j + 1) \<le> k \<and> k < N \<longrightarrow> b[nat j := vf + b ! nat j] ! k = diff_table \<delta> N ! k"
      proof (intro allI impI)
        fix k assume k: "nat (j + 1) \<le> k \<and> k < N"
        then have "nat j \<le> k" "k \<noteq> nat j" using j(1) by linarith+
        then show "b[nat j := vf + b ! nat j] ! k = diff_table \<delta> N ! k"
          using post k by simp
      qed
    qed
    with body show "\<exists>t'. ?body j t = Inr t' \<and> I (j + 1) t'"
      by blast
  qed
  then obtain t where run: "for_loop 0 (len vel_lut) ?body (0, h @ [diff_table \<delta> N]) = Inr t"
    and fin: "I (len vel_lut) t"
    by blast
  from fin obtain b where vf: "fst t = velocity_at \<delta> (nat (len vel_lut - 1))"
    and hv: "snd t = h @ [b]" and lb: "length b = N"
    and all: "\<forall>k<N. b ! k = velocity_at \<delta> k"
    by (auto simp: I_def N_def)
  have "b = velocity_table \<delta> N"
    using lb all by (intro nth_equalityI) (simp_all add: velocity_table_def)
  moreover have "nat (len vel_lut - 1) = N - 1"
    by (simp add: N_def)
  ultimately have "t = (velocity_at \<delta> (N - 1), h @ [velocity_table \<delta> N])"
    using vf hv by (cases t) simp
  with run show ?thesis by (simp add: N_def)
qed

text \<open>One benchmark iteration, when every interval's rule returns a value.\<close>

lemma run_sim_pass_value:
  fixes \<epsilon> :: "int \<Rightarrow> real"
  assumes len: "1 \<le> len l"
    and \<delta>: "\<And>sec b. 1 \<le> sec \<Longrightarrow> sec < len l \<Longrightarrow> length b = nat (len l) \<Longrightarrow>
          sum_cb (of_int (sec - 1)) (of_int sec) (step args) l (calc_linear_interpolation (h @ [b]))
            = Inr (\<delta> sec)"
    and \<epsilon>: "\<And>sec. 1 \<le> sec \<Longrightarrow> sec < len l \<Longrightarrow>
          sum_cb (of_int (sec - 1)) (of_int sec) (step args) \<lparr>len = len l, lut = length h\<rparr>
            (calc_linear_interpolation (h @ [velocity_table \<delta> (nat (len l))]))
            = Inr (\<epsilon> sec)"
    and blk: "length blk = nat (len l)" "blk ! 0 = 0"
  shows "run_sim_pass sum_cb args l \<lparr>len = len l, lut = length h\<rparr> (h @ [blk])
           = Inr (velocity_at \<delta> (nat (len l) - 1),
                  (\<Sum>k<nat (len l - 1). \<epsilon> (1 + int k)),
                  h @ [velocity_table \<delta> (nat (len l))])"
proof -
  let ?v = "\<lparr>len = len l, lut = length h\<rparr>"
  have p: "lut ?v = length h" and n: "len ?v = len l" by simp_all
  note vel = seq_velocity_loop [of l ?v h sum_cb args \<delta> blk, OF len p \<delta> blk]
  have pos: "for_loop 1 (len ?v)
             (\<lambda>sec pos_final.
                case sum_cb (of_int (sec - 1)) (of_int sec) (step args) ?v
                       (calc_linear_interpolation (h @ [velocity_table \<delta> (nat (len l))])) of
                  Inl e \<Rightarrow> Inl e
                | Inr d \<Rightarrow> Inr (pos_final + d))
             0
         = Inr (\<Sum>k<nat (len ?v - 1). \<epsilon> (1 + int k))"
    by (rule seq_position_loop) (simp only: n \<epsilon>)
  show ?thesis
    unfolding run_sim_pass_def
    using vel pos
    by (simp only: sum.case prod.case n)
qed

lemma run_sim_openmp_pass_value:
  fixes \<epsilon> :: "int \<Rightarrow> real"
  assumes len: "1 \<le> len l"
    and \<delta>: "\<And>sec b. 1 \<le> sec \<Longrightarrow> sec < len l \<Longrightarrow> length b = nat (len l) \<Longrightarrow>
          sum_cb (of_int (sec - 1)) (of_int sec) (step args) l (calc_linear_interpolation (h @ [b]))
            = Inr (\<delta> sec)"
    and \<epsilon>: "\<And>sec. 1 \<le> sec \<Longrightarrow> sec < len l \<Longrightarrow>
          sum_cb (of_int (sec - 1)) (of_int sec) (step args) \<lparr>len = len l, lut = length h\<rparr>
            (calc_linear_interpolation (h @ [velocity_table \<delta> (nat (len l))]))
            = Inr (\<epsilon> sec)"
    and blk: "length blk = nat (len l)" "blk ! 0 = 0"
    and sched: "schedule_ok args l sched"
  shows "run_sim_openmp_pass sched sum_cb args l \<lparr>len = len l, lut = length h\<rparr> (h @ [blk])
           = Inr (velocity_at \<delta> (nat (len l) - 1),
                  (\<Sum>k<nat (len l - 1). \<epsilon> (1 + int k)),
                  h @ [velocity_table \<delta> (nat (len l))])"
proof -
  let ?v = "\<lparr>len = len l, lut = length h\<rparr>"
  have p: "lut ?v = length h" and n: "len ?v = len l" by simp_all
  have order: "mset (for_order sched) = mset [1..len l - 1]"
    and chunks: "mset (concat (reduction_chunks sched)) = mset [1..len ?v - 1]"
    using sched by (simp_all add: schedule_ok_def)
  note diff = omp_difference_loop [of l ?v h sum_cb args \<delta> blk "for_order sched", OF len p \<delta> blk order]
  have len': "1 \<le> len ?v" using len by simp
  note run = omp_running_sum_loop [of ?v h \<delta>, OF len' p]
  have pos: "omp_for_reduction (reduction_chunks sched)
             (\<lambda>sec pos_final.
                case sum_cb (of_int (sec - 1)) (of_int sec) (step args) ?v
                       (calc_linear_interpolation (h @ [velocity_table \<delta> (nat (len l))])) of
                  Inl e \<Rightarrow> Inl e
                | Inr d \<Rightarrow> Inr (pos_final + d))
             0
         = Inr (\<Sum>k<nat (len ?v - 1). \<epsilon> (1 + int k))"
    by (rule omp_position_loop [OF _ chunks]) (simp only: n \<epsilon>)
  show ?thesis
    unfolding run_sim_openmp_pass_def
    using diff run pos
    by (simp only: sum.case prod.case n)
qed

section \<open>Whole runs\<close>

lemma run_sim_pass_fails:
  assumes "2 \<le> len l"
    and "sum_cb (of_int (1 - 1)) (of_int 1) (step args) l (calc_linear_interpolation hc) = Inl e"
  shows "run_sim_pass sum_cb args l vel_lut hc = Inl e"
proof -
  have "for_loop 1 (len l)
             (\<lambda>sec (vel_final, hv).
                case sum_cb (of_int (sec - 1)) (of_int sec) (step args) l
                       (calc_linear_interpolation hv) of
                  Inl e \<Rightarrow> Inl e
                | Inr d \<Rightarrow>
                    (case store_double hv (lut vel_lut) sec (vel_final + d) of
                       Inl e \<Rightarrow> Inl e
                     | Inr hv' \<Rightarrow> Inr (vel_final + d, hv')))
             (0, hc) = Inl e"
  proof (rule for_loop_first_fails)
    show "1 < len l" using assms(1) by simp
  qed (simp only: prod.case assms(2) sum.case)
  then show ?thesis
    unfolding run_sim_pass_def by (simp only: sum.case)
qed

lemma run_sim_openmp_pass_fails:
  assumes "2 \<le> len l" and "schedule_ok args l sched"
    and "\<And>sec. 1 \<le> sec \<Longrightarrow> sec < len l \<Longrightarrow>
           sum_cb (of_int (sec - 1)) (of_int sec) (step args) l (calc_linear_interpolation hc) = Inl e"
  shows "run_sim_openmp_pass sched sum_cb args l vel_lut hc = Inl e"
proof -
  have m: "mset (for_order sched) = mset [1..len l - 1]"
    using assms(2) by (simp add: schedule_ok_def)
  then have "set (for_order sched) = {1..len l - 1}"
    by (metis set_mset_mset set_upto)
  moreover have ne: "for_order sched \<noteq> []"
  proof
    assume "for_order sched = []"
    with m have "[1..len l - 1] = []" by simp
    with assms(1) show False by (simp add: upto.simps)
  qed
  ultimately have hd: "1 \<le> hd (for_order sched)" "hd (for_order sched) < len l"
    using hd_in_set [OF ne] by auto
  have "omp_for (for_order sched)
             (\<lambda>sec hv.
                case sum_cb (of_int (sec - 1)) (of_int sec) (step args) l
                       (calc_linear_interpolation hv) of
                  Inl e \<Rightarrow> Inl e
                | Inr d \<Rightarrow> store_double hv (lut vel_lut) sec d)
             hc = Inl e"
  proof (rule omp_for_first_fails)
    show "for_order sched \<noteq> []" by (rule ne)
  qed (simp only: assms(3) [OF hd] sum.case)
  then show ?thesis
    unfolding run_sim_openmp_pass_def by (simp only: sum.case)
qed

lemma benchmark_alloc_fails: "benchmark pass args l h None = Inl AllocationError"
  by (simp add: benchmark_def malloc_doubles_def)

lemma benchmark_start:
  assumes "1 \<le> len l"
  shows "benchmark pass args l h (Some junk) =
           (case for_loop 0 (iterations args)
                   (\<lambda>c (hc, printed).
                      case pass c \<lparr>len = len l, lut = length h\<rparr> hc of
                        Inl e \<Rightarrow> Inl e
                      | Inr (vel_final, pos_final, hc') \<Rightarrow>
                          Inr (hc', if c = iterations args - 1
                                    then Some (vel_final, pos_final) else printed))
                   (h @ [(map junk [0..<nat (len l)])[0 := 0]], None) of
              Inl e \<Rightarrow> Inl e
            | Inr (h2, printed) \<Rightarrow>
                Inr (printed, free_block h2 (lut \<lparr>len = len l, lut = length h\<rparr>)))"
proof -
  have "store_double (h @ [map junk [0..<nat (len l)]]) (length h) 0 0
          = Inr (h @ [(map junk [0..<nat (len l)])[0 := 0]])"
    using assms by (simp add: store_double_def)
  then show ?thesis
    by (simp add: benchmark_def malloc_doubles_def Let_def)
qed

lemma benchmark_fails:
  assumes "1 \<le> iterations args" and "1 \<le> len l"
    and "\<And>blk. length blk = nat (len l) \<Longrightarrow> blk ! 0 = 0 \<Longrightarrow>
           pass 0 \<lparr>len = len l, lut = length h\<rparr> (h @ [blk]) = Inl e"
  shows "benchmark pass args l h (Some junk) = Inl e"
proof -
  have "pass 0 \<lparr>len = len l, lut = length h\<rparr> (h @ [(map junk [0..<nat (len l)])[0 := 0]]) = Inl e"
    using assms(2) by (intro assms(3)) simp_all
  then have "for_loop 0 (iterations args)
                   (\<lambda>c (hc, printed).
                      case pass c \<lparr>len = len l, lut = length h\<rparr> hc of
                        Inl e \<Rightarrow> Inl e
                      | Inr (vel_final, pos_final, hc') \<Rightarrow>
                          Inr (hc', if c = iterations args - 1
                                    then Some (vel_final, pos_final) else printed))
                   (h @ [(map junk [0..<nat (len l)])[0 := 0]], None) = Inl e"
    using assms(1) by (intro for_loop_first_fails) simp_all
  then show ?thesis
    by (simp add: benchmark_start [OF assms(2)])
qed

lemma benchmark_value:
  assumes it: "1 \<le> iterations args" and len: "1 \<le> len l"
    and pass: "\<And>c blk. 0 \<le> c \<Longrightarrow> c < iterations args \<Longrightarrow> length blk = nat (len l) \<Longrightarrow>
           blk ! 0 = 0 \<Longrightarrow>
           pass c \<lparr>len = len l, lut = length h\<rparr> (h @ [blk]) = Inr (vf, pf, h @ [vt])"
    and vt: "length vt = nat (len l)" "vt ! 0 = 0"
  shows "benchmark pass args l h (Some junk) = Inr (Some (vf, pf), h @ [[]])"
proof -
  let ?body = "\<lambda>c (hc, printed).
                      case pass c \<lparr>len = len l, lut = length h\<rparr> hc of
                        Inl e \<Rightarrow> Inl e
                      | Inr (vel_final, pos_final, hc') \<Rightarrow>
                          Inr (hc', if c = iterations args - 1
                                    then Some (vel_final, pos_final) else printed)"
  define I where "I c s \<longleftrightarrow>
      (\<exists>blk. fst s = h @ [blk] \<and> length blk = nat (len l) \<and> blk ! 0 = 0)
      \<and> snd s = (if c = iterations args then Some (vf, pf) else None)"
    for c :: int and s :: "heap \<times> (real \<times> real) option"
  have "\<exists>t. for_loop 0 (iterations args) ?body
               (h @ [(map junk [0..<nat (len l)])[0 := 0]], None) = Inr t
            \<and> I (iterations args) t"
  proof (rule for_loop_invariant)
    show "I 0 (h @ [(map junk [0..<nat (len l)])[0 := 0]], None)"
      using it len by (simp add: I_def)
    show "0 \<le> iterations args" using it by simp
  next
    fix c :: int and t :: "heap \<times> (real \<times> real) option"
    assume c: "0 \<le> c" "c < iterations args" and inv: "I c t"
    obtain hc printed where t: "t = (hc, printed)" by (cases t)
    from inv c obtain blk where hc: "hc = h @ [blk]" and blk: "length blk = nat (len l)" "blk ! 0 = 0"
      and pr: "printed = None"
      by (auto simp: I_def t)
    have "pass c \<lparr>len = len l, lut = length h\<rparr> hc = Inr (vf, pf, h @ [vt])"
      unfolding hc by (rule pass [OF c blk])
    then have "?body c t = Inr (h @ [vt], if c = iterations args - 1 then Some (vf, pf) else None)"
      by (simp add: t pr)
    moreover have "I (c + 1) (h @ [vt], if c = iterations args - 1 then Some (vf, pf) else None)"
      using vt by (auto simp: I_def)
    ultimately show "\<exists>t'. ?body c t = Inr t' \<and> I (c + 1) t'"
      by blast
  qed
  then obtain t where run: "for_loop 0 (iterations args) ?body
               (h @ [(map junk [0..<nat (len l)])[0 := 0]], None) = Inr t"
    and fin: "I (iterations args) t"
    by blast
  from fin obtain blk where "t = (h @ [blk], Some (vf, pf))"
    by (cases t) (auto simp: I_def)
  with run show ?thesis
    by (simp add: benchmark_start [OF len] free_block_def)
qed

lemma interval_heap_cong:
  assumes "lut l < length h"
  shows "select_summation a lower upper n l (calc_linear_interpolation (h @ [b]))
           = select_summation a lower upper n l (calc_linear_interpolation h)"
proof (rule summation_cb_cong)
  fix x
  show "calc_linear_interpolation (h @ [b]) l x = calc_linear_interpolation h l x"
    using assms by (intro calc_linear_interpolation_heap_cong) (simp_all add: nth_append)
qed

lemma velocity_table_wf:
  assumes "1 \<le> n" and "n \<le> INT32_MAX"
  shows "lut_wf (h @ [velocity_table \<delta> (nat n)]) \<lparr>len = n, lut = length h\<rparr>"
  using assms by (simp add: lut_wf_def velocity_table_def)

lemma velocity_table_props:
  assumes "1 \<le> n"
  shows "length (velocity_table \<delta> (nat n)) = nat n" and "velocity_table \<delta> (nat n) ! 0 = 0"
  using assms by (simp_all add: velocity_table_def)

lemma pipeline_result:
  assumes va: "valid_args args" and wf: "lut_wf h l" and len: "1 \<le> len l"
    and nub: "\<not> (algo args = SIMPSONS \<and> step args = INT32_MAX \<and> 2 \<le> len l)"
  shows "\<exists>vf pf. run_sim args l h (Some junk) = Inr (Some (vf, pf), h @ [[]])
           \<and> (\<forall>scheds. (\<forall>c. schedule_ok args l (scheds c)) \<longrightarrow>
                  run_sim_openmp scheds args l h (Some junk) = Inr (Some (vf, pf), h @ [[]]))"
proof -
  let ?sc = "select_summation (algo args) :: lut_info summation"
  let ?v = "\<lparr>len = len l, lut = length h\<rparr>"
  define \<delta> where "\<delta> sec = projr (?sc (of_int (sec - 1)) (of_int sec) (step args) l
                                   (calc_linear_interpolation h))" for sec
  define vt where "vt = velocity_table \<delta> (nat (len l))"
  define \<epsilon> where "\<epsilon> sec = projr (?sc (of_int (sec - 1)) (of_int sec) (step args) ?v
                                   (calc_linear_interpolation (h @ [vt])))" for sec
  have n: "1 \<le> step args" "step args \<le> INT32_MAX" and it: "1 \<le> iterations args"
    using va by (simp_all add: valid_args_def)
  have lmax: "len l \<le> INT32_MAX" and blk: "lut l < length h"
    using wf by (simp_all add: lut_wf_def)
  have a: "\<And>sec. 1 \<le> sec \<Longrightarrow> sec < len l \<Longrightarrow> \<not> (algo args = SIMPSONS \<and> step args = INT32_MAX)"
    using nub by auto
  have d: "\<And>sec b. 1 \<le> sec \<Longrightarrow> sec < len l \<Longrightarrow> length b = nat (len l) \<Longrightarrow>
          ?sc (of_int (sec - 1)) (of_int sec) (step args) l (calc_linear_interpolation (h @ [b]))
            = Inr (\<delta> sec)"
  proof -
    fix sec :: int and b :: "real list"
    assume sec: "1 \<le> sec" "sec < len l"
    have "\<exists>d. ?sc (of_int (sec - 1)) (of_int sec) (step args) l (calc_linear_interpolation h) = Inr d"
      by (rule interval_total [OF n a [OF sec] wf sec])
    then have "?sc (of_int (sec - 1)) (of_int sec) (step args) l (calc_linear_interpolation h)
                = Inr (\<delta> sec)"
      unfolding \<delta>_def by (rule Inr_projr)
    then show "?sc (of_int (sec - 1)) (of_int sec) (step args) l (calc_linear_interpolation (h @ [b]))
            = Inr (\<delta> sec)"
      by (simp only: interval_heap_cong [OF blk])
  qed
  have wfv: "lut_wf (h @ [vt]) ?v"
    unfolding vt_def by (rule velocity_table_wf [OF len lmax])
  have e: "\<And>sec. 1 \<le> sec \<Longrightarrow> sec < len l \<Longrightarrow>
          ?sc (of_int (sec - 1)) (of_int sec) (step args) ?v
            (calc_linear_interpolation (h @ [velocity_table \<delta> (nat (len l))]))
            = Inr (\<epsilon> sec)"
  proof -
    fix sec :: int
    assume sec: "1 \<le> sec" "sec < len l"
    then have sec': "1 \<le> sec" "sec < len ?v" by simp_all
    have "\<exists>d. ?sc (of_int (sec - 1)) (of_int sec) (step args) ?v
                 (calc_linear_interpolation (h @ [vt])) = Inr d"
      by (rule interval_total [OF n a [OF sec] wfv sec'])
    then show "?sc (of_int (sec - 1)) (of_int sec) (step args) ?v
            (calc_linear_interpolation (h @ [velocity_table \<delta> (nat (len l))]))
            = Inr (\<epsilon> sec)"
      unfolding \<epsilon>_def vt_def by (rule Inr_projr)
  qed
  let ?vf = "velocity_at \<delta> (nat (len l) - 1)"
  let ?pf = "\<Sum>k<nat (len l - 1). \<epsilon> (1 + int k)"
  note vtp = velocity_table_props [OF len, of \<delta>]
  have pass_seq: "\<And>blk. length blk = nat (len l) \<Longrightarrow> blk ! 0 = 0 \<Longrightarrow>
      run_sim_pass ?sc args l ?v (h @ [blk])
        = Inr (?vf, ?pf, h @ [velocity_table \<delta> (nat (len l))])"
    using len d e by (rule run_sim_pass_value)
  have pass_par: "\<And>sched blk. length blk = nat (len l) \<Longrightarrow> blk ! 0 = 0 \<Longrightarrow>
      schedule_ok args l sched \<Longrightarrow>
      run_sim_openmp_pass sched ?sc args l ?v (h @ [blk])
        = Inr (?vf, ?pf, h @ [velocity_table \<delta> (nat (len l))])"
    using len d e by (rule run_sim_openmp_pass_value)
  have seq: "run_sim args l h (Some junk) = Inr (Some (?vf, ?pf), h @ [[]])"
    unfolding run_sim_def
    by (rule benchmark_value [where vt = "velocity_table \<delta> (nat (len l))", OF it len _ vtp])
       (rule pass_seq)
  have par: "\<And>scheds. (\<forall>c. schedule_ok args l (scheds c)) \<Longrightarrow>
      run_sim_openmp scheds args l h (Some junk) = Inr (Some (?vf, ?pf), h @ [[]])"
    unfolding run_sim_openmp_def
    by (rule benchmark_value [where vt = "velocity_table \<delta> (nat (len l))", OF it len _ vtp])
       (rule pass_par, simp_all)
  from seq par show ?thesis by blast
qed

lemma pipeline_overflow:
  assumes it: "1 \<le> iterations args" and wf: "lut_wf h l" and len: "2 \<le> len l"
    and ub: "algo args = SIMPSONS" "step args = INT32_MAX"
  shows "run_sim args l h (Some junk) = Inl Undefined"
    and "(\<forall>c. schedule_ok args l (scheds c)) \<Longrightarrow>
           run_sim_openmp scheds args l h (Some junk) = Inl Undefined"
proof -
  have blk: "lut l < length h" and len1: "1 \<le> len l"
    using wf len by (simp_all add: lut_wf_def)
  have d: "\<And>sec b. 1 \<le> sec \<Longrightarrow> sec < len l \<Longrightarrow>
          select_summation (algo args) (of_int (sec - 1)) (of_int sec) (step args) l
            (calc_linear_interpolation (h @ [b])) = Inl Undefined"
    unfolding ub by (simp only: interval_heap_cong [OF blk] interval_overflow [OF wf])
  show "run_sim args l h (Some junk) = Inl Undefined"
    unfolding run_sim_def
  proof (rule benchmark_fails [OF it len1], rule run_sim_pass_fails [OF len])
    fix b :: "real list"
    show "select_summation (algo args) (of_int (1 - 1)) (of_int 1) (step args) l
            (calc_linear_interpolation (h @ [b])) = Inl Undefined"
      using len by (intro d) simp_all
  qed
  assume "\<forall>c. schedule_ok args l (scheds c)"
  then have s0: "schedule_ok args l (scheds 0)" ..
  show "run_sim_openmp scheds args l h (Some junk) = Inl Undefined"
    unfolding run_sim_openmp_def
    by (rule benchmark_fails [OF it len1], rule run_sim_openmp_pass_fails [OF len s0]) (rule d)
qed

section \<open>The acceleration table is not written\<close>

lemma store_double_frame:
  assumes "store_double (h @ [b]) (length h) i v = Inr hv'"
  shows "\<exists>b'. hv' = h @ [b']"
  using assms by (auto simp: store_double_def split: if_splits)

lemma run_sim_pass_frame:
  assumes p: "lut vel_lut = length h"
    and run: "run_sim_pass sum_cb args l vel_lut (h @ [b]) = Inr (vf, pf, h1)"
  shows "\<exists>b'. h1 = h @ [b']"
proof -
  let ?body = "\<lambda>sec (vel_final, hv).
                case sum_cb (of_int (sec - 1)) (of_int sec) (step args) l
                       (calc_linear_interpolation hv) of
                  Inl e \<Rightarrow> Inl e
                | Inr d \<Rightarrow>
                    (case store_double hv (lut vel_lut) sec (vel_final + d) of
                       Inl e \<Rightarrow> Inl e
                     | Inr hv' \<Rightarrow> Inr (vel_final + d, hv'))"
  from run obtain t where t: "for_loop 1 (len l) ?body (0, h @ [b]) = Inr t" and h1: "snd t = h1"
    unfolding run_sim_pass_def by (auto split: sum.splits prod.splits)
  have "\<exists>b'. snd t = h @ [b']"
  proof (rule for_loop_preserves [OF t, where P = "\<lambda>s. \<exists>b'. snd s = h @ [b']"])
    show "\<exists>b'. snd (0::real, h @ [b]) = h @ [b']" by simp
  next
    fix j :: int and u u' :: "real \<times> heap"
    assume "\<exists>b'. snd u = h @ [b']" and "?body j u = Inr u'"
    then show "\<exists>b'. snd u' = h @ [b']"
      unfolding p by (cases u) (auto split: sum.splits dest: store_double_frame)
  qed
  with h1 show ?thesis by simp
qed

lemma run_sim_openmp_pass_frame:
  assumes p: "lut vel_lut = length h"
    and run: "run_sim_openmp_pass sched sum_cb args l vel_lut (h @ [b]) = Inr (vf, pf, h2)"
  shows "\<exists>b'. h2 = h @ [b']"
proof -
  let ?diff = "\<lambda>sec hv.
                case sum_cb (of_int (sec - 1)) (of_int sec) (step args) l
                       (calc_linear_interpolation hv) of
                  Inl e \<Rightarrow> Inl e
                | Inr d \<Rightarrow> store_double hv (lut vel_lut) sec d"
  let ?run = "\<lambda>index (vel_final, hv).
                     case load_double hv (lut vel_lut) index of
                       Inl e \<Rightarrow> Inl e
                     | Inr v \<Rightarrow>
                         (case store_double hv (lut vel_lut) index (vel_final + v) of
                            Inl e \<Rightarrow> Inl e
                          | Inr hv' \<Rightarrow> Inr (vel_final + v, hv'))"
  from run obtain h1 t where a: "omp_for (for_order sched) ?diff (h @ [b]) = Inr h1"
    and t: "for_loop 0 (len vel_lut) ?run (0, h1) = Inr t" and h2: "snd t = h2"
    unfolding run_sim_openmp_pass_def by (auto split: sum.splits prod.splits)
  have "\<exists>b'. h1 = h @ [b']"
  proof (rule omp_for_preserves [OF a, where P = "\<lambda>s. \<exists>b'. s = h @ [b']"])
    show "\<exists>b'. h @ [b] = h @ [b']" by simp
  next
    fix j :: int and u u' :: heap
    assume "\<exists>b'. u = h @ [b']" and "?diff j u = Inr u'"
    then show "\<exists>b'. u' = h @ [b']"
      unfolding p by (auto split: sum.splits dest: store_double_frame)
  qed
  then obtain b1 where b1: "h1 = h @ [b1]" ..
  have "\<exists>b'. snd t = h @ [b']"
  proof (rule for_loop_preserves [OF t, where P = "\<lambda>s. \<exists>b'. snd s = h @ [b']"])
    show "\<exists>b'. snd (0::real, h1) = h @ [b']" using b1 by simp
  next
    fix j :: int and u u' :: "real \<times> heap"
    assume "\<exists>b'. snd u = h @ [b']" and "?run j u = Inr u'"
    then show "\<exists>b'. snd u' = h @ [b']"
      unfolding p by (cases u) (auto split: sum.splits dest: store_double_frame)
  qed
  with h2 show ?thesis by simp
qed

lemma benchmark_frame:
  assumes pass: "\<And>c b vf pf h1. pass c \<lparr>len = len l, lut = length h\<rparr> (h @ [b]) = Inr (vf, pf, h1)
                   \<Longrightarrow> \<exists>b'. h1 = h @ [b']"
    and run: "benchmark pass args l h fresh = Inr (printed, h')"
  shows "h' = h @ [[]]"
proof -
  let ?v = "\<lparr>len = len l, lut = length h\<rparr>"
  let ?body = "\<lambda>c (hc, printed).
                             case pass c ?v hc of
                               Inl e \<Rightarrow> Inl e
                             | Inr (vel_final, pos_final, hc') \<Rightarrow>
                                 Inr (hc', if c = iterations args - 1
                                           then Some (vel_final, pos_final) else printed)"
  from run obtain junk where fresh: "fresh = Some junk"
    by (cases fresh) (simp_all add: benchmark_def malloc_doubles_def)
  from run obtain h1 t where st: "store_double (h @ [map junk [0..<nat (len l)]]) (length h) 0 0 = Inr h1"
    and t: "for_loop 0 (iterations args) ?body (h1, None) = Inr t"
    and h': "h' = free_block (fst t) (length h)"
    unfolding benchmark_def fresh malloc_doubles_def
    by (auto simp: Let_def split: sum.splits prod.splits)
  from st obtain b1 where b1: "h1 = h @ [b1]"
    by (auto dest: store_double_frame)
  have "\<exists>b'. fst t = h @ [b']"
  proof (rule for_loop_preserves [OF t, where P = "\<lambda>s. \<exists>b'. fst s = h @ [b']"])
    show "\<exists>b'. fst (h1, None :: (real \<times> real) option) = h @ [b']" using b1 by simp
  next
    fix c :: int and u u' :: "heap \<times> (real \<times> real) option"
    assume "\<exists>b'. fst u = h @ [b']" and "?body c u = Inr u'"
    then show "\<exists>b'. fst u' = h @ [b']"
      by (cases u) (auto split: sum.splits prod.splits dest: pass)
  qed
  then show ?thesis
    unfolding h' by (auto simp: free_block_def)
qed

section \<open>The two pipelines\<close>

text \<open>
  C1. For every validated configuration, every acceleration table of length at least \<open>1\<close>
  and every schedule of the parallel loops (for any number of threads, one included),
  \<open>run_sim_openmp\<close> and \<open>run_sim\<close> have the same outcome: the same final velocity and
  final position (exactly, as doubles are reals here), and the same memory.
\<close>

theorem pipelines_agree:
  assumes va: "valid_args args" and wf: "lut_wf h l" and len: "1 \<le> len l"
    and sched: "\<forall>c. schedule_ok args l (scheds c)"
  shows "run_sim_openmp scheds args l h fresh = run_sim args l h fresh"
proof (cases fresh)
  case None
  then show ?thesis
    by (simp add: run_sim_def run_sim_openmp_def benchmark_alloc_fails)
next
  case (Some junk)
  show ?thesis
  proof (cases "algo args = SIMPSONS \<and> step args = INT32_MAX \<and> 2 \<le> len l")
    case True
    have it: "1 \<le> iterations args"
      using va by (simp add: valid_args_def)
    from True have ub: "algo args = SIMPSONS" "step args = INT32_MAX" and len2: "2 \<le> len l"
      by simp_all
    have "run_sim args l h (Some junk) = Inl Undefined"
      by (rule pipeline_overflow(1) [OF it wf len2 ub])
    moreover have "run_sim_openmp scheds args l h (Some junk) = Inl Undefined"
      by (rule pipeline_overflow(2) [OF it wf len2 ub sched])
    ultimately show ?thesis
      unfolding Some by simp
  next
    case False
    from pipeline_result [OF va wf len False, of junk] sched show ?thesis
      unfolding Some by auto
  qed
qed

theorem pipelines_agree_witness:
  "valid_args \<lparr>threads = 2, algo = SIMPSONS, step = 2, iterations = 2\<rparr>
   \<and> lut_wf [[0, 1, 4, 9]] \<lparr>len = 4, lut = 0\<rparr>
   \<and> 1 \<le> len \<lparr>len = 4, lut = 0\<rparr>
   \<and> schedule_ok \<lparr>threads = 2, algo = SIMPSONS, step = 2, iterations = 2\<rparr> \<lparr>len = 4, lut = 0\<rparr>
         \<lparr>for_order = [3, 1, 2], reduction_chunks = [[2], [3, 1]]\<rparr>
   \<and> run_sim \<lparr>threads = 2, algo = SIMPSONS, step = 2, iterations = 2\<rparr> \<lparr>len = 4, lut = 0\<rparr>
         [[0, 1, 4, 9]] (Some (\<lambda>k. 7))
       = Inr (Some (19 / 2, 33 / 4), [[0, 1, 4, 9], []])
   \<and> run_sim_openmp (\<lambda>c. \<lparr>for_order = [3, 1, 2], reduction_chunks = [[2], [3, 1]]\<rparr>)
         \<lparr>threads = 2, algo = SIMPSONS, step = 2, iterations = 2\<rparr> \<lparr>len = 4, lut = 0\<rparr>
         [[0, 1, 4, 9]] (Some (\<lambda>k. 7))
       = Inr (Some (19 / 2, 33 / 4), [[0, 1, 4, 9], []])"
proof -
  let ?args = "\<lparr>threads = 2, algo = SIMPSONS, step = 2, iterations = 2\<rparr>"
  let ?l = "\<lparr>len = 4, lut = 0\<rparr>"
  let ?s = "\<lparr>for_order = [3, 1, 2], reduction_chunks = [[2], [3, 1]]\<rparr>"
  have va: "valid_args ?args" by (simp add: valid_args_def)
  have wf: "lut_wf [[0, 1, 4, 9]] ?l" by (simp add: lut_wf_def)
  have len: "1 \<le> len ?l" by simp
  have s: "schedule_ok ?args ?l ?s" by code_simp
  then have sched: "\<forall>c. schedule_ok ?args ?l ((\<lambda>c. ?s) c)" by simp
  have seq: "run_sim ?args ?l [[0, 1, 4, 9]] (Some (\<lambda>k. 7))
               = Inr (Some (19 / 2, 33 / 4), [[0, 1, 4, 9], []])"
    by code_simp
  from pipelines_agree [OF va wf len sched, of "Some (\<lambda>k. 7)"] seq
  have "run_sim_openmp (\<lambda>c. ?s) ?args ?l [[0, 1, 4, 9]] (Some (\<lambda>k. 7))
               = Inr (Some (19 / 2, 33 / 4), [[0, 1, 4, 9], []])"
    by simp
  with va wf len s seq show ?thesis by simp
qed

text \<open>
  C4, at the largest subdivision count that \<open>parse_step_arg\<close> accepts. With
  \<open>step = INT32_MAX\<close> the loop of \<open>simpsons\<close>,
  \<^verbatim>\<open>for (iter = 0; iter <= iterations; iter += 1)\<close>, cannot end: after the pass with
  \<open>iter = INT32_MAX\<close> the increment overflows. The run on the table \<open>[0, 1]\<close> gets there
  (all samples before it are inside the table). Where the overflow wraps around, the next
  sample point of the interval \<open>[0, 1]\<close> is \<open>0 + INT32_MIN * (1 / INT32_MAX)\<close>, just below
  \<open>-1\<close>, and there \<open>calc_linear_interpolation\<close> takes the out-of-bounds branch of
  \<open>get_lut_index\<close>.
\<close>

theorem simpsons_max_step_overflow:
  "valid_args \<lparr>threads = 1, algo = SIMPSONS, step = INT32_MAX, iterations = 1\<rparr>
   \<and> lut_wf [[0, 1]] \<lparr>len = 2, lut = 0\<rparr>
   \<and> run_sim \<lparr>threads = 1, algo = SIMPSONS, step = INT32_MAX, iterations = 1\<rparr>
         \<lparr>len = 2, lut = 0\<rparr> [[0, 1]] (Some (\<lambda>k. 0)) = Inl Undefined
   \<and> calc_linear_interpolation [[0, 1]] \<lparr>len = 2, lut = 0\<rparr>
         (0 + of_int INT32_MIN * ((1 - 0) / of_int INT32_MAX)) = Inl IndexError"
proof -
  let ?args = "\<lparr>threads = 1, algo = SIMPSONS, step = INT32_MAX, iterations = 1\<rparr>"
  let ?l = "\<lparr>len = 2, lut = 0\<rparr>"
  have va: "valid_args ?args" by (simp add: valid_args_def)
  have wf: "lut_wf [[0, 1]] ?l" by (simp add: lut_wf_def)
  have "run_sim ?args ?l [[0, 1]] (Some (\<lambda>k. 0)) = Inl Undefined"
    by (rule pipeline_overflow(1) [OF _ wf]) simp_all
  moreover have "calc_linear_interpolation [[0, 1]] ?l
         (0 + of_int INT32_MIN * ((1 - 0) / of_int INT32_MAX)) = Inl IndexError"
    by code_simp
  ultimately show ?thesis
    using va wf by simp
qed

text \<open>
  For every other validated input both pipelines return a result: no table access is out
  of bounds, and nothing else fails either.
\<close>

theorem pipeline_in_bounds:
  assumes "valid_args args" and "lut_wf h l" and "1 \<le> len l"
    and "\<not> (algo args = SIMPSONS \<and> step args = INT32_MAX \<and> 2 \<le> len l)"
    and "\<forall>c. schedule_ok args l (scheds c)"
  shows "\<exists>vf pf. run_sim args l h (Some junk) = Inr (Some (vf, pf), h @ [[]])
           \<and> run_sim_openmp scheds args l h (Some junk) = Inr (Some (vf, pf), h @ [[]])"
  using pipeline_result [OF assms(1-4), of junk] assms(5) by blast

theorem pipeline_in_bounds_witness:
  "valid_args \<lparr>threads = 2, algo = MID_RIEMANN, step = 3, iterations = 1\<rparr>
   \<and> lut_wf [[0, 1, 4, 9]] \<lparr>len = 4, lut = 0\<rparr>
   \<and> 1 \<le> len \<lparr>len = 4, lut = 0\<rparr>
   \<and> schedule_ok \<lparr>threads = 2, algo = MID_RIEMANN, step = 3, iterations = 1\<rparr> \<lparr>len = 4, lut = 0\<rparr>
         \<lparr>for_order = [2, 3, 1], reduction_chunks = [[1, 2], [3]]\<rparr>
   \<and> (\<exists>vf pf.
         run_sim \<lparr>threads = 2, algo = MID_RIEMANN, step = 3, iterations = 1\<rparr> \<lparr>len = 4, lut = 0\<rparr>
           [[0, 1, 4, 9]] (Some (\<lambda>k. 7)) = Inr (Some (vf, pf), [[0, 1, 4, 9], []])
         \<and> run_sim_openmp (\<lambda>c. \<lparr>for_order = [2, 3, 1], reduction_chunks = [[1, 2], [3]]\<rparr>)
           \<lparr>threads = 2, algo = MID_RIEMANN, step = 3, iterations = 1\<rparr> \<lparr>len = 4, lut = 0\<rparr>
           [[0, 1, 4, 9]] (Some (\<lambda>k. 7)) = Inr (Some (vf, pf), [[0, 1, 4, 9], []]))"
proof -
  let ?args = "\<lparr>threads = 2, algo = MID_RIEMANN, step = 3, iterations = 1\<rparr>"
  let ?l = "\<lparr>len = 4, lut = 0\<rparr>"
  let ?s = "\<lparr>for_order = [2, 3, 1], reduction_chunks = [[1, 2], [3]]\<rparr>"
  have va: "valid_args ?args" by (simp add: valid_args_def)
  have wf: "lut_wf [[0, 1, 4, 9]] ?l" by (simp add: lut_wf_def)
  have len: "1 \<le> len ?l" by simp
  have s: "schedule_ok ?args ?l ?s" by code_simp
  then have sched: "\<forall>c. schedule_ok ?args ?l ((\<lambda>c. ?s) c)" by simp
  have nub: "\<not> (algo ?args = SIMPSONS \<and> step ?args = INT32_MAX \<and> 2 \<le> len ?l)" by simp
  from pipeline_in_bounds [OF va wf len nub sched, of "\<lambda>k. 7"] va wf len s
  show ?thesis by simp
qed

section \<open>Scenarios and the frame of a run\<close>

text \<open>
  C5. On the acceleration table \<open>[0, 1, 2, 3]\<close> with the left Riemann rule and one
  subdivision, a benchmark iteration of \<open>run_sim\<close> leaves the velocity table
  \<open>[0, 0, 1, 3]\<close>, and the run prints the final velocity \<open>3\<close> and the final position \<open>1\<close>.
\<close>

theorem left_riemann_scenario:
  "run_sim_pass (select_summation LEFT_RIEMANN)
       \<lparr>threads = 1, algo = LEFT_RIEMANN, step = 1, iterations = 1\<rparr>
       \<lparr>len = 4, lut = 0\<rparr> \<lparr>len = 4, lut = 1\<rparr> [[0, 1, 2, 3], [0, j1, j2, j3]]
     = Inr (3, 1, [[0, 1, 2, 3], [0, 0, 1, 3]])
   \<and> run_sim \<lparr>threads = 1, algo = LEFT_RIEMANN, step = 1, iterations = 1\<rparr>
       \<lparr>len = 4, lut = 0\<rparr> [[0, 1, 2, 3]] (Some junk)
     = Inr (Some (3, 1), [[0, 1, 2, 3], []])"
  by (simp add: run_sim_def benchmark_def malloc_doubles_def free_block_def
        run_sim_pass_def select_summation_def left_riemann_def for_loop.simps
        store_double_def load_double_def calc_linear_interpolation_def
        int32_of_double_def get_lut_index_def Let_def upt_rec)


text \<open>
  C7. On a table of length \<open>1\<close> both pipelines print the final velocity \<open>0\<close> and the final
  position \<open>0\<close>. No integration is performed: the loops over \<open>1 .. len - 1\<close> are empty, so
  the result is the same whatever function stands for the rule (the third and fourth
  statement, for every \<open>sum_cb\<close>), and no sample of the table is read.
\<close>

theorem single_sample_run:
  assumes len: "len l = 1" and it: "1 \<le> iterations args"
    and sched: "\<forall>c. schedule_ok args l (scheds c)"
  shows "run_sim args l h (Some junk) = Inr (Some (0, 0), h @ [[]])
       \<and> run_sim_openmp scheds args l h (Some junk) = Inr (Some (0, 0), h @ [[]])
       \<and> benchmark (\<lambda>c vel_lut hc. run_sim_pass sum_cb args l vel_lut hc) args l h (Some junk)
           = Inr (Some (0, 0), h @ [[]])
       \<and> benchmark (\<lambda>c vel_lut hc. run_sim_openmp_pass (scheds c) sum_cb args l vel_lut hc)
             args l h (Some junk)
           = Inr (Some (0, 0), h @ [[]])"
proof -
  have len1: "1 \<le> len l" using len by simp
  define \<delta> :: "int \<Rightarrow> real" where "\<delta> sec = 0" for sec
  define \<epsilon> :: "int \<Rightarrow> real" where "\<epsilon> sec = 0" for sec
  have vt: "length (velocity_table \<delta> (nat (len l))) = nat (len l)"
    "velocity_table \<delta> (nat (len l)) ! 0 = 0"
    by (rule velocity_table_props [OF len1])+
  have vf: "velocity_at \<delta> (nat (len l) - 1) = 0" and pf: "(\<Sum>k<nat (len l - 1). \<epsilon> (1 + int k)) = 0"
    using len by simp_all
  have seq: "\<And>sc :: lut_info summation.
      benchmark (\<lambda>c vel_lut hc. run_sim_pass sc args l vel_lut hc) args l h (Some junk)
        = Inr (Some (0, 0), h @ [[]])"
  proof -
    fix sc :: "lut_info summation"
    have "\<And>blk. length blk = nat (len l) \<Longrightarrow> blk ! 0 = 0 \<Longrightarrow>
        run_sim_pass sc args l \<lparr>len = len l, lut = length h\<rparr> (h @ [blk])
          = Inr (velocity_at \<delta> (nat (len l) - 1), (\<Sum>k<nat (len l - 1). \<epsilon> (1 + int k)),
                 h @ [velocity_table \<delta> (nat (len l))])"
      by (rule run_sim_pass_value [OF len1]) (simp_all add: len)
    then show "benchmark (\<lambda>c vel_lut hc. run_sim_pass sc args l vel_lut hc) args l h (Some junk)
        = Inr (Some (0, 0), h @ [[]])"
      unfolding vf pf
      by (intro benchmark_value [where vt = "velocity_table \<delta> (nat (len l))", OF it len1 _ vt])
  qed
  have par: "\<And>sc :: lut_info summation.
      benchmark (\<lambda>c vel_lut hc. run_sim_openmp_pass (scheds c) sc args l vel_lut hc)
          args l h (Some junk)
        = Inr (Some (0, 0), h @ [[]])"
  proof -
    fix sc :: "lut_info summation"
    have "\<And>c blk. length blk = nat (len l) \<Longrightarrow> blk ! 0 = 0 \<Longrightarrow>
        run_sim_openmp_pass (scheds c) sc args l \<lparr>len = len l, lut = length h\<rparr> (h @ [blk])
          = Inr (velocity_at \<delta> (nat (len l) - 1), (\<Sum>k<nat (len l - 1). \<epsilon> (1 + int k)),
                 h @ [velocity_table \<delta> (nat (len l))])"
      using sched by (intro run_sim_openmp_pass_value [OF len1]) (simp_all add: len)
    then show "benchmark (\<lambda>c vel_lut hc. run_sim_openmp_pass (scheds c) sc args l vel_lut hc)
          args l h (Some junk)
        = Inr (Some (0, 0), h @ [[]])"
      unfolding vf pf
      by (intro benchmark_value [where vt = "velocity_table \<delta> (nat (len l))", OF it len1 _ vt])
  qed
  show ?thesis
    unfolding run_sim_def run_sim_openmp_def by (intro conjI seq par)
qed

theorem single_sample_run_witness:
  "len \<lparr>len = 1, lut = 0\<rparr> = 1
   \<and> 1 \<le> iterations \<lparr>threads = 4, algo = SIMPSONS, step = 10, iterations = 3\<rparr>
   \<and> schedule_ok \<lparr>threads = 4, algo = SIMPSONS, step = 10, iterations = 3\<rparr> \<lparr>len = 1, lut = 0\<rparr>
         \<lparr>for_order = [], reduction_chunks = [[], []]\<rparr>
   \<and> run_sim \<lparr>threads = 4, algo = SIMPSONS, step = 10, iterations = 3\<rparr> \<lparr>len = 1, lut = 0\<rparr>
         [[5]] (Some (\<lambda>k. 7)) = Inr (Some (0, 0), [[5], []])
   \<and> run_sim_openmp (\<lambda>c. \<lparr>for_order = [], reduction_chunks = [[], []]\<rparr>)
         \<lparr>threads = 4, algo = SIMPSONS, step = 10, iterations = 3\<rparr> \<lparr>len = 1, lut = 0\<rparr>
         [[5]] (Some (\<lambda>k. 7)) = Inr (Some (0, 0), [[5], []])"
proof -
  let ?args = "\<lparr>threads = 4, algo = SIMPSONS, step = 10, iterations = 3\<rparr>"
  let ?l = "\<lparr>len = 1, lut = 0\<rparr>"
  let ?s = "\<lparr>for_order = [], reduction_chunks = [[], []]\<rparr>"
  have s: "schedule_ok ?args ?l ?s" by (simp add: schedule_ok_def)
  then have sched: "\<forall>c. schedule_ok ?args ?l ((\<lambda>c. ?s) c)" by simp
  from single_sample_run [of ?l ?args "\<lambda>c. ?s" "[[5]]" "\<lambda>k. 7", OF _ _ sched] s
  show ?thesis by simp
qed

text \<open>
  C10. A run of either pipeline that returns leaves every block of memory that existed
  before it as it was, the acceleration table among them: the memory after the run is the
  memory before it followed by the one block the run allocated (the velocity table, freed
  at the end). This holds for every configuration, table, allocator and schedule; a run
  without a result has ended the process, or has returned before its first store because
  \<^verbatim>\<open>malloc\<close> failed.
\<close>

theorem acceleration_table_unchanged:
  assumes "lut l < length h"
  shows "(run_sim args l h fresh = Inr (printed, h') \<longrightarrow>
            h' ! lut l = h ! lut l \<and> take (length h) h' = h)
       \<and> (run_sim_openmp scheds args l h fresh = Inr (printed, h') \<longrightarrow>
            h' ! lut l = h ! lut l \<and> take (length h) h' = h)"
proof (intro conjI impI)
  assume "run_sim args l h fresh = Inr (printed, h')"
  then have "h' = h @ [[]]"
    unfolding run_sim_def
    by (rule benchmark_frame [rotated]) (rule run_sim_pass_frame, simp_all)
  then show "h' ! lut l = h ! lut l" "take (length h) h' = h"
    using assms by (simp_all add: nth_append)
next
  assume "run_sim_openmp scheds args l h fresh = Inr (printed, h')"
  then have "h' = h @ [[]]"
    unfolding run_sim_openmp_def
    by (rule benchmark_frame [rotated]) (rule run_sim_openmp_pass_frame, simp_all)
  then show "h' ! lut l = h ! lut l" "take (length h) h' = h"
    using assms by (simp_all add: nth_append)
qed

theorem acceleration_table_unchanged_witness:
  "lut \<lparr>len = 4, lut = 1\<rparr> < length [[8, 8], [0, 1, 4, 9]]
   \<and> run_sim \<lparr>threads = 2, algo = TRAPEZOIDAL, step = 2, iterations = 2\<rparr> \<lparr>len = 4, lut = 1\<rparr>
         [[8, 8], [0, 1, 4, 9]] (Some (\<lambda>k. 7))
       = Inr (Some (19 / 2, 33 / 4), [[8, 8], [0, 1, 4, 9], []])
   \<and> run_sim_openmp (\<lambda>c. \<lparr>for_order = [3, 1, 2], reduction_chunks = [[2], [3, 1]]\<rparr>)
         \<lparr>threads = 2, algo = TRAPEZOIDAL, step = 2, iterations = 2\<rparr> \<lparr>len = 4, lut = 1\<rparr>
         [[8, 8], [0, 1, 4, 9]] (Some (\<lambda>k. 7))
       = Inr (Some (19 / 2, 33 / 4), [[8, 8], [0, 1, 4, 9], []])
   \<and> [[8, 8], [0, 1, 4, 9], []] ! lut \<lparr>len = 4, lut = 1\<rparr> = [0, 1, 4, 9]
   \<and> take (length [[8, 8], [0, 1, 4, 9 :: real]]) [[8, 8], [0, 1, 4, 9], []] = [[8, 8], [0, 1, 4, 9]]"
proof -
  let ?l = "\<lparr>len = 4, lut = 1\<rparr>"
  let ?h = "[[8, 8], [0, 1, 4, 9 :: real]]"
  have seq: "run_sim \<lparr>threads = 2, algo = TRAPEZOIDAL, step = 2, iterations = 2\<rparr> ?l ?h (Some (\<lambda>k. 7))
       = Inr (Some (19 / 2, 33 / 4), [[8, 8], [0, 1, 4, 9], []])"
    by code_simp
  have par: "run_sim_openmp (\<lambda>c. \<lparr>for_order = [3, 1, 2], reduction_chunks = [[2], [3, 1]]\<rparr>)
         \<lparr>threads = 2, algo = TRAPEZOIDAL, step = 2, iterations = 2\<rparr> ?l ?h (Some (\<lambda>k. 7))
       = Inr (Some (19 / 2, 33 / 4), [[8, 8], [0, 1, 4, 9], []])"
    by code_simp
  have blk: "lut ?l < length ?h" by simp
  from acceleration_table_unchanged [OF blk,
      of "\<lparr>threads = 2, algo = TRAPEZOIDAL, step = 2, iterations = 2\<rparr>" "Some (\<lambda>k. 7)"
         "Some (19 / 2, 33 / 4)" "[[8, 8], [0, 1, 4, 9], []]"
         "\<lambda>c. \<lparr>for_order = [3, 1, 2], reduction_chunks = [[2], [3, 1]]\<rparr>"] seq par
  show ?thesis by simp
qed

end
